theory Spec2Isabelle
  imports Main
begin

section \<open>CacheSimulator (src/correlation\_finder.py)\<close>

text \<open>
  The class \<^verbatim>\<open>CacheSimulator\<close> keeps its entries in an \<^verbatim>\<open>OrderedDict\<close> and picks its
  eviction strategy at random in the constructor. The model below follows the methods
  \<^verbatim>\<open>__init__\<close>, \<^verbatim>\<open>set\<close>, \<^verbatim>\<open>get\<close>, \<^verbatim>\<open>evict\<close> and the deletion done by
  \<^verbatim>\<open>simulate_workload\<close> line by line.

  Conventions of the model:
  \<^item> a timestamp (\<^verbatim>\<open>time.time()\<close>) and a ttl are floats. A float is a whole number of a
    time unit small enough for all the floats that occur (every finite double is a whole
    multiple of \<^verbatim>\<open>2**-1074\<close> seconds), so the type is \<open>int\<close> and comparisons are
    exact;
  \<^item> the float addition \<^verbatim>\<open>time.time() + ttl\<close> of \<^verbatim>\<open>set\<close> is the exact sum rounded to a
    float: \<open>rnd (now + ttl)\<close>, where the rounding \<open>rnd\<close> is a parameter of \<open>set_op\<close>.
    Overflow and \<^verbatim>\<open>nan\<close> are not modelled;
  \<^item> every reading of the clock is an argument of the operation that reads it
    (\<^verbatim>\<open>set\<close> reads the clock twice, \<^verbatim>\<open>get\<close> up to twice);
  \<^item> the number drawn by \<^verbatim>\<open>random.choice\<close> is an argument of the constructor;
  \<^item> the lock makes the method bodies atomic, so a concurrent run is a sequence of
    operations;
  \<^item> every exception a dictionary operation or \<^verbatim>\<open>min\<close> can raise is a value \<open>Inl e\<close>.
\<close>

subsection \<open>Exceptions\<close>

datatype py_error = KeyError | ValueError | StopIteration

subsection \<open>The OrderedDict\<close>

text \<open>
  An \<^verbatim>\<open>OrderedDict\<close> is the list of its items in iteration order. Its keys are
  pairwise different: \<open>od_setitem\<close> keeps them so.
\<close>

type_synonym ('k, 'e) odict = "('k \<times> 'e) list"

definition od_keys :: "('k, 'e) odict \<Rightarrow> 'k list" where
  "od_keys d = map fst d"

text \<open>\<^verbatim>\<open>key in d\<close>\<close>

definition od_contains :: "'k \<Rightarrow> ('k, 'e) odict \<Rightarrow> bool" where
  "od_contains k d = (k \<in> set (od_keys d))"

text \<open>\<^verbatim>\<open>d[key]\<close>\<close>

definition od_getitem :: "('k, 'e) odict \<Rightarrow> 'k \<Rightarrow> py_error + 'e" where
  "od_getitem d k = (case map_of d k of None \<Rightarrow> Inl KeyError | Some e \<Rightarrow> Inr e)"

text \<open>
  \<^verbatim>\<open>d[key] = e\<close>: a key already in the dictionary keeps its position, a new key goes
  to the end.
\<close>

fun od_setitem :: "'k \<Rightarrow> 'e \<Rightarrow> ('k, 'e) odict \<Rightarrow> ('k, 'e) odict" where
  "od_setitem k e [] = [(k, e)]"
| "od_setitem k e ((k', e') # d) =
     (if k' = k then (k, e) # d else (k', e') # od_setitem k e d)"

text \<open>\<^verbatim>\<open>del d[key]\<close>\<close>

definition od_delitem :: "'k \<Rightarrow> ('k, 'e) odict \<Rightarrow> py_error + ('k, 'e) odict" where
  "od_delitem k d =
     (if od_contains k d then Inr (filter (\<lambda>p. fst p \<noteq> k) d) else Inl KeyError)"

text \<open>\<^verbatim>\<open>d.move_to_end(key)\<close>\<close>

definition od_move_to_end :: "'k \<Rightarrow> ('k, 'e) odict \<Rightarrow> py_error + ('k, 'e) odict" where
  "od_move_to_end k d =
     (if od_contains k d
      then Inr (filter (\<lambda>p. fst p \<noteq> k) d @ filter (\<lambda>p. fst p = k) d)
      else Inl KeyError)"

text \<open>\<^verbatim>\<open>d.popitem(last=False)\<close>\<close>

definition od_popitem_first ::
  "('k, 'e) odict \<Rightarrow> py_error + (('k \<times> 'e) \<times> ('k, 'e) odict)" where
  "od_popitem_first d = (case d of [] \<Rightarrow> Inl KeyError | p # r \<Rightarrow> Inr (p, r))"

text \<open>\<^verbatim>\<open>next(iter(d))\<close>\<close>

definition od_first_key :: "('k, 'e) odict \<Rightarrow> py_error + 'k" where
  "od_first_key d = (case d of [] \<Rightarrow> Inl StopIteration | p # r \<Rightarrow> Inr (fst p))"

subsection \<open>The builtin min with a key function\<close>

text \<open>
  \<^verbatim>\<open>min(xs, key=f)\<close> walks \<open>xs\<close> once and replaces its candidate only by an element
  whose key is strictly smaller: of several minimal elements the first one is returned.
  On an empty sequence it raises \<^verbatim>\<open>ValueError\<close>.
\<close>

fun min_from :: "('a \<Rightarrow> 'b::linorder) \<Rightarrow> 'a \<Rightarrow> 'a list \<Rightarrow> 'a" where
  "min_from f best [] = best"
| "min_from f best (x # xs) = min_from f (if f x < f best then x else best) xs"

definition py_min :: "('a \<Rightarrow> 'b::linorder) \<Rightarrow> 'a list \<Rightarrow> py_error + 'a" where
  "py_min f xs = (case xs of [] \<Rightarrow> Inl ValueError | x # r \<Rightarrow> Inr (min_from f x r))"

subsection \<open>Entries and the cache object\<close>

type_synonym time = int

text \<open>
  The dictionary stored under each key; the field \<^verbatim>\<open>'value'\<close> is \<open>val\<close> here.
\<close>

record 'v entry =
  val :: 'v
  expires :: time
  created :: time
  accessed :: int
  last_access :: "time option"

record ('k, 'v) cache_simulator =
  max_size :: int
  ttl :: time
  cache :: "('k, 'v entry) odict"
  access_count :: "'k \<Rightarrow> int"
  hit_count :: int
  miss_count :: int
  eviction_count :: int
  strategies :: "string list"
  strategy :: string

text \<open>
  \<^verbatim>\<open>random.choice(seq)\<close> returns \<^verbatim>\<open>seq[i]\<close> for a random index \<open>i\<close> below the length;
  \<open>r\<close> is the number drawn.
\<close>

definition random_choice :: "'a list \<Rightarrow> nat \<Rightarrow> 'a" where
  "random_choice xs r = xs ! (r mod length xs)"

text \<open>
  \<^verbatim>\<open>__init__(self, max_size=1000, ttl=300)\<close>. It has no strategy parameter and no
  \<^verbatim>\<open>raise\<close>; \<^verbatim>\<open>defaultdict(int)\<close> is the function that is 0 everywhere.
\<close>

definition init :: "int \<Rightarrow> time \<Rightarrow> nat \<Rightarrow> ('k, 'v) cache_simulator" where
  "init m t r =
     \<lparr> max_size = m, ttl = t, cache = [], access_count = (\<lambda>k. 0),
       hit_count = 0, miss_count = 0, eviction_count = 0,
       strategies = [''lru'', ''lfu'', ''fifo'', ''ttl''],
       strategy = random_choice [''lru'', ''lfu'', ''fifo'', ''ttl''] r \<rparr>"

text \<open>
  The call \<^verbatim>\<open>CacheSimulator(max_size=m, ttl=t)\<close>: it returns the object that
  \<open>init\<close> has filled, whatever \<open>m\<close> and \<open>t\<close> are.
\<close>

definition CacheSimulator :: "int \<Rightarrow> time \<Rightarrow> nat \<Rightarrow> py_error + ('k, 'v) cache_simulator" where
  "CacheSimulator m t r = Inr (init m t r)"

subsection \<open>evict\<close>

text \<open>
  The key picked by each branch of \<^verbatim>\<open>evict\<close> together with the dictionary left.
  The key functions of the two \<^verbatim>\<open>min\<close> calls read \<^verbatim>\<open>self.cache[k]['accessed']\<close> and
  \<^verbatim>\<open>self.cache[k]['expires']\<close> for each key \<open>k\<close> of the dictionary: the model walks the
  items and reads the field of the entry stored with the key.
\<close>

definition evict_pick ::
  "string \<Rightarrow> ('k, 'v entry) odict \<Rightarrow> py_error + ('k \<times> ('k, 'v entry) odict)" where
  "evict_pick st d =
     (if st = ''lru'' then
        (case od_popitem_first d of
           Inl err \<Rightarrow> Inl err
         | Inr (p, d') \<Rightarrow> Inr (fst p, d'))
      else if st = ''lfu'' then
        (case py_min (\<lambda>p. accessed (snd p)) d of
           Inl err \<Rightarrow> Inl err
         | Inr p \<Rightarrow>
             (case od_delitem (fst p) d of
                Inl err \<Rightarrow> Inl err
              | Inr d' \<Rightarrow> Inr (fst p, d')))
      else if st = ''fifo'' then
        (case od_first_key d of
           Inl err \<Rightarrow> Inl err
         | Inr k \<Rightarrow>
             (case od_delitem k d of
                Inl err \<Rightarrow> Inl err
              | Inr d' \<Rightarrow> Inr (k, d')))
      else
        (case py_min (\<lambda>p. expires (snd p)) d of
           Inl err \<Rightarrow> Inl err
         | Inr p \<Rightarrow>
             (case od_delitem (fst p) d of
                Inl err \<Rightarrow> Inl err
              | Inr d' \<Rightarrow> Inr (fst p, d'))))"

definition evict ::
  "('k, 'v) cache_simulator \<Rightarrow> py_error + ('k option \<times> ('k, 'v) cache_simulator)" where
  "evict s =
     (if cache s = [] then Inr (None, s)
      else
        (case evict_pick (strategy s) (cache s) of
           Inl err \<Rightarrow> Inl err
         | Inr (k, d') \<Rightarrow>
             Inr (Some k, s\<lparr>cache := d', eviction_count := eviction_count s + 1\<rparr>)))"

subsection \<open>Float addition\<close>

text \<open>
  Python adds floats as IEEE-754 does: the exact sum is rounded to the nearest float, a
  tie to the float with an even significand. The floats of one binade are the multiples
  of its unit in the last place \<open>u\<close>, so for a sum that stays in the binade the rounding
  is \<open>round_to_ulp u\<close>. Where the exact sum is a float itself nothing is rounded and the
  rounding is the identity.
\<close>

definition round_to_ulp :: "int \<Rightarrow> int \<Rightarrow> int" where
  "round_to_ulp u x =
     (let q = x div u; r = x mod u
      in if 2 * r < u \<or> (2 * r = u \<and> even q) then q * u else (q + 1) * u)"

subsection \<open>set\<close>

text \<open>
  \<^verbatim>\<open>custom_ttl or self.ttl\<close>: \<^verbatim>\<open>None\<close> and the number 0 are both false in Python, so
  either gives the default.
\<close>

definition ttl_or :: "time option \<Rightarrow> time \<Rightarrow> time" where
  "ttl_or custom_ttl dflt =
     (case custom_ttl of None \<Rightarrow> dflt | Some c \<Rightarrow> if c = 0 then dflt else c)"

text \<open>
  \<open>now_e\<close> is the clock read for \<^verbatim>\<open>expires\<close>, \<open>now_c\<close> the later reading stored as
  \<^verbatim>\<open>'created'\<close>, \<open>rnd\<close> the rounding of the float addition.
\<close>

definition set_op ::
  "(time \<Rightarrow> time) \<Rightarrow> 'k \<Rightarrow> 'v \<Rightarrow> time option \<Rightarrow> time \<Rightarrow> time
     \<Rightarrow> ('k, 'v) cache_simulator \<Rightarrow> py_error + (bool \<times> ('k, 'v) cache_simulator)" where
  "set_op rnd key v custom_ttl now_e now_c s =
     (case (if int (length (cache s)) \<ge> max_size s then evict s else Inr (None, s)) of
        Inl err \<Rightarrow> Inl err
      | Inr (victim, s1) \<Rightarrow>
          Inr (True,
               s1\<lparr>cache := od_setitem key
                    \<lparr> val = v, expires = rnd (now_e + ttl_or custom_ttl (ttl s1)),
                      created = now_c, accessed = 0, last_access = None \<rparr>
                    (cache s1)\<rparr>))"

subsection \<open>get\<close>

text \<open>
  \<open>now_x\<close> is the clock read by the expiry test, \<open>now_a\<close> the reading stored in
  \<^verbatim>\<open>'last_access'\<close>. The item is the dictionary object stored in the cache, so the two
  assignments to it change the stored entry in place.
\<close>

definition get_op ::
  "'k \<Rightarrow> time \<Rightarrow> time \<Rightarrow> ('k, 'v) cache_simulator
     \<Rightarrow> py_error + ('v option \<times> ('k, 'v) cache_simulator)" where
  "get_op key now_x now_a s =
     (if \<not> od_contains key (cache s) then
        Inr (None, s\<lparr>miss_count := miss_count s + 1\<rparr>)
      else
        (case od_getitem (cache s) key of
           Inl err \<Rightarrow> Inl err
         | Inr item \<Rightarrow>
             if now_x > expires item then
               (case od_delitem key (cache s) of
                  Inl err \<Rightarrow> Inl err
                | Inr d' \<Rightarrow>
                    Inr (None, s\<lparr>cache := d',
                                 miss_count := miss_count s + 1,
                                 eviction_count := eviction_count s + 1\<rparr>))
             else
               (let d1 = od_setitem key
                           (item\<lparr>accessed := accessed item + 1, last_access := Some now_a\<rparr>)
                           (cache s)
                in case (if strategy s = ''lru'' then od_move_to_end key d1 else Inr d1) of
                     Inl err \<Rightarrow> Inl err
                   | Inr d2 \<Rightarrow>
                       Inr (Some (val item),
                            s\<lparr>cache := d2,
                              hit_count := hit_count s + 1,
                              access_count := (access_count s)(key := access_count s key + 1)\<rparr>))))"

subsection \<open>Deletion by the workload driver\<close>

text \<open>\<^verbatim>\<open>if key in self.cache: del self.cache[key]\<close>, under the lock.\<close>

definition delete_op ::
  "'k \<Rightarrow> ('k, 'v) cache_simulator \<Rightarrow> py_error + ('k, 'v) cache_simulator" where
  "delete_op key s =
     (if od_contains key (cache s) then
        (case od_delitem key (cache s) of
           Inl err \<Rightarrow> Inl err
         | Inr d' \<Rightarrow> Inr (s\<lparr>cache := d'\<rparr>))
      else Inr s)"

subsection \<open>Sequences of operations\<close>

datatype ('k, 'v) op =
    Set 'k 'v "time option" time time
  | Get 'k time time
  | Evict
  | Delete 'k

fun is_get :: "('k, 'v) op \<Rightarrow> bool" where
  "is_get (Get k now_x now_a) = True"
| "is_get other = False"

fun step ::
  "(time \<Rightarrow> time) \<Rightarrow> ('k, 'v) op \<Rightarrow> ('k, 'v) cache_simulator
     \<Rightarrow> py_error + ('k, 'v) cache_simulator" where
  "step rnd (Set k v custom_ttl now_e now_c) s =
     (case set_op rnd k v custom_ttl now_e now_c s of
        Inl err \<Rightarrow> Inl err | Inr (b, s') \<Rightarrow> Inr s')"
| "step rnd (Get k now_x now_a) s =
     (case get_op k now_x now_a s of Inl err \<Rightarrow> Inl err | Inr (r, s') \<Rightarrow> Inr s')"
| "step rnd Evict s =
     (case evict s of Inl err \<Rightarrow> Inl err | Inr (r, s') \<Rightarrow> Inr s')"
| "step rnd (Delete k) s = delete_op k s"

fun run ::
  "(time \<Rightarrow> time) \<Rightarrow> ('k, 'v) cache_simulator \<Rightarrow> ('k, 'v) op list
     \<Rightarrow> py_error + ('k, 'v) cache_simulator" where
  "run rnd s [] = Inr s"
| "run rnd s (x # xs) =
     (case step rnd x s of Inl err \<Rightarrow> Inl err | Inr s' \<Rightarrow> run rnd s' xs)"

subsection \<open>Objects for the examples\<close>

text \<open>
  A cache object of capacity 3 with default ttl 300, a given strategy and a given
  dictionary, and an entry created at time 10 with a given value, \<open>accessed\<close> count and
  expiry time.
\<close>

definition example_entry :: "int \<Rightarrow> int \<Rightarrow> time \<Rightarrow> int entry" where
  "example_entry v n e =
     \<lparr> val = v, expires = e, created = 10, accessed = n, last_access = None \<rparr>"

definition example_object ::
  "string \<Rightarrow> (string, int entry) odict \<Rightarrow> (string, int) cache_simulator" where
  "example_object st d =
     \<lparr> max_size = 3, ttl = 300, cache = d, access_count = (\<lambda>k. 0),
       hit_count = 0, miss_count = 0, eviction_count = 0,
       strategies = [''lru'', ''lfu'', ''fifo'', ''ttl''], strategy = st \<rparr>"

section \<open>Properties of the dictionary operations and of min\<close>

lemma od_keys_setitem:
  "od_keys (od_setitem k e d) = (if k \<in> set (od_keys d) then od_keys d else od_keys d @ [k])"
  by (induction d) (force simp: od_keys_def)+

lemma length_od_setitem:
  "length (od_setitem k e d) = (if od_contains k d then length d else Suc (length d))"
  by (induction d) (force simp: od_keys_def od_contains_def)+

lemma distinct_od_setitem:
  "distinct (od_keys d) \<Longrightarrow> distinct (od_keys (od_setitem k e d))"
  by (simp add: od_keys_setitem)

lemma od_keys_filter: "od_keys (filter (\<lambda>p. fst p \<noteq> k) d) = filter (\<lambda>x. x \<noteq> k) (od_keys d)"
  by (induction d) (auto simp: od_keys_def)

lemma distinct_od_remove:
  "distinct (od_keys d) \<Longrightarrow> distinct (od_keys (filter (\<lambda>p. fst p \<noteq> k) d))"
  by (simp add: od_keys_filter)

lemma length_od_remove:
  "distinct (od_keys d) \<Longrightarrow> od_contains k d \<Longrightarrow>
     Suc (length (filter (\<lambda>p. fst p \<noteq> k) d)) = length d"
proof (induction d)
  case Nil
  then show ?case by (simp add: od_contains_def od_keys_def)
next
  case (Cons p d)
  show ?case
  proof (cases "fst p = k")
    case True
    with Cons.prems have "k \<notin> fst ` set d" by (auto simp: od_keys_def)
    then have "filter (\<lambda>q. fst q \<noteq> k) d = d" by (auto simp: filter_id_conv)
    with True show ?thesis by simp
  next
    case False
    with Cons show ?thesis by (auto simp: od_contains_def od_keys_def)
  qed
qed

lemma od_remove_head:
  "distinct (od_keys (p # d)) \<Longrightarrow> filter (\<lambda>q. fst q \<noteq> fst p) (p # d) = d"
proof -
  assume "distinct (od_keys (p # d))"
  then have "fst p \<notin> fst ` set d" by (simp add: od_keys_def)
  then have "filter (\<lambda>q. fst q \<noteq> fst p) d = d"
    unfolding filter_id_conv by (metis imageI)
  then show ?thesis by simp
qed

lemma od_move_keeps_distinct:
  "distinct (od_keys d) \<Longrightarrow>
     distinct (od_keys (filter (\<lambda>p. fst p \<noteq> k) d @ filter (\<lambda>p. fst p = k) d))"
  by (auto simp: od_keys_def distinct_map_filter)

lemma min_from_le_best: "f (min_from f best xs) \<le> f best"
proof (induction xs arbitrary: best)
  case Nil
  show ?case by simp
next
  case (Cons x xs)
  show ?case
  proof (cases "f x < f best")
    case True
    have "f (min_from f x xs) \<le> f x" by (rule Cons.IH)
    with True show ?thesis by simp
  next
    case False
    have "f (min_from f best xs) \<le> f best" by (rule Cons.IH)
    with False show ?thesis by simp
  qed
qed

lemma min_from_split:
  "\<exists>pre post. best # xs = pre @ min_from f best xs # post
      \<and> (\<forall>y \<in> set pre. f (min_from f best xs) < f y)
      \<and> (\<forall>y \<in> set post. f (min_from f best xs) \<le> f y)"
proof (induction xs arbitrary: best)
  case Nil
  have "[best] = [] @ best # [] \<and> (\<forall>y \<in> set []. f best < f y) \<and> (\<forall>y \<in> set []. f best \<le> f y)"
    by simp
  then show ?case unfolding min_from.simps by (intro exI)
next
  case (Cons x xs)
  show ?case
  proof (cases "f x < f best")
    case True
    define m where "m = min_from f x xs"
    have mm: "min_from f best (x # xs) = m" using True by (simp add: m_def)
    from Cons.IH [of x] obtain pre post where
      s: "x # xs = pre @ m # post"
      and a: "\<forall>y \<in> set pre. f m < f y"
      and b: "\<forall>y \<in> set post. f m \<le> f y" unfolding m_def by blast
    have "f m \<le> f x" unfolding m_def by (rule min_from_le_best)
    with True have lt: "f m < f best" by simp
    have "best # x # xs = (best # pre) @ m # post" using s by simp
    moreover have "\<forall>y \<in> set (best # pre). f m < f y" using a lt by simp
    ultimately have "best # x # xs = (best # pre) @ m # post
        \<and> (\<forall>y \<in> set (best # pre). f m < f y) \<and> (\<forall>y \<in> set post. f m \<le> f y)"
      using b by simp
    then show ?thesis unfolding mm by (intro exI)
  next
    case False
    define m where "m = min_from f best xs"
    have mm: "min_from f best (x # xs) = m" using False by (simp add: m_def)
    from Cons.IH [of best] obtain pre post where
      s: "best # xs = pre @ m # post"
      and a: "\<forall>y \<in> set pre. f m < f y"
      and b: "\<forall>y \<in> set post. f m \<le> f y" unfolding m_def by blast
    show ?thesis
    proof (cases pre)
      case Nil
      with s have e: "best = m" and p: "xs = post" by simp_all
      have "f m \<le> f x" using False e by simp
      then have "best # x # xs = [] @ m # (x # post)
        \<and> (\<forall>y \<in> set []. f m < f y) \<and> (\<forall>y \<in> set (x # post). f m \<le> f y)"
        using e p b by simp
      then show ?thesis unfolding mm by (intro exI)
    next
      case (Cons q qs)
      with s have q: "q = best" and r: "xs = qs @ m # post" by simp_all
      have lt: "f m < f best" using a Cons q by simp
      then have lx: "f m < f x" using False by simp
      have "best # x # xs = (best # x # qs) @ m # post" using r by simp
      moreover have "\<forall>y \<in> set (best # x # qs). f m < f y"
        using a Cons lt lx by simp
      ultimately have "best # x # xs = (best # x # qs) @ m # post
        \<and> (\<forall>y \<in> set (best # x # qs). f m < f y) \<and> (\<forall>y \<in> set post. f m \<le> f y)"
        using b by simp
      then show ?thesis unfolding mm by (intro exI)
    qed
  qed
qed

lemma min_from_mem: "min_from f best xs \<in> set (best # xs)"
  by (induction xs arbitrary: best) auto

lemma od_contains_fst: "p \<in> set d \<Longrightarrow> od_contains (fst p) d"
  by (simp add: od_contains_def od_keys_def)

lemma od_remove_mid:
  assumes "distinct (od_keys (pre @ m # post))"
  shows "filter (\<lambda>q. fst q \<noteq> fst m) (pre @ m # post) = pre @ post"
proof -
  from assms have "fst m \<notin> fst ` set pre" and "fst m \<notin> fst ` set post"
    by (auto simp: od_keys_def)
  then have "filter (\<lambda>q. fst q \<noteq> fst m) pre = pre" and "filter (\<lambda>q. fst q \<noteq> fst m) post = post"
    unfolding filter_id_conv by (metis imageI)+
  then show ?thesis by simp
qed

lemma evict_pick_head:
  "st = ''lru'' \<or> st = ''fifo'' \<Longrightarrow> distinct (od_keys (p # r)) \<Longrightarrow>
     evict_pick st (p # r) = Inr (fst p, r)"
  using od_remove_head [of p r]
  by (auto simp: evict_pick_def od_popitem_first_def od_first_key_def od_delitem_def
                 od_contains_def od_keys_def)

lemma evict_pick_min:
  assumes "st \<noteq> ''lru''" and "st \<noteq> ''fifo''" and "d \<noteq> []"
  shows "evict_pick st d =
     (let f = (if st = ''lfu'' then (\<lambda>p. accessed (snd p)) else (\<lambda>p. expires (snd p)));
          m = min_from f (hd d) (tl d)
      in Inr (fst m, filter (\<lambda>q. fst q \<noteq> fst m) d))"
proof -
  from assms(3) obtain p r where d: "d = p # r" by (cases d) auto
  have c: "\<And>f. od_contains (fst (min_from f p r)) (p # r)"
    using min_from_mem od_contains_fst by metis
  show ?thesis
  proof (cases "st = ''lfu''")
    case True
    with c [of "\<lambda>p. accessed (snd p)"] show ?thesis
      by (simp add: evict_pick_def py_min_def od_delitem_def d Let_def)
  next
    case False
    with assms(1,2) c [of "\<lambda>p. expires (snd p)"] show ?thesis
      by (simp add: evict_pick_def py_min_def od_delitem_def d Let_def)
  qed
qed

lemma evict_pick_total:
  assumes "d \<noteq> []" and "distinct (od_keys d)"
  shows "\<exists>k. evict_pick st d = Inr (k, filter (\<lambda>q. fst q \<noteq> k) d) \<and> od_contains k d"
proof -
  from assms(1) obtain p r where d: "d = p # r" by (cases d) auto
  show ?thesis
  proof (cases "st = ''lru'' \<or> st = ''fifo''")
    case True
    then have "evict_pick st d = Inr (fst p, r)"
      using evict_pick_head assms(2) d by blast
    moreover have "filter (\<lambda>q. fst q \<noteq> fst p) d = r"
      using od_remove_head assms(2) d by blast
    moreover have "od_contains (fst p) d" by (simp add: d od_contains_fst)
    ultimately show ?thesis by auto
  next
    case False
    then have ne: "st \<noteq> ''lru''" "st \<noteq> ''fifo''" by auto
    define f where "f = (if st = ''lfu'' then (\<lambda>p::'a \<times> 'b entry. accessed (snd p)) else (\<lambda>p. expires (snd p)))"
    define m where "m = min_from f (hd d) (tl d)"
    have "evict_pick st d = Inr (fst m, filter (\<lambda>q. fst q \<noteq> fst m) d)"
      using evict_pick_min [OF ne assms(1)] by (simp add: f_def m_def Let_def)
    moreover have "m \<in> set d" unfolding m_def d using min_from_mem [of f p r] by simp
    ultimately show ?thesis using od_contains_fst by blast
  qed
qed

lemma evict_nonempty:
  assumes "cache s \<noteq> []" and "distinct (od_keys (cache s))"
  shows "\<exists>k. evict s = Inr (Some k, s\<lparr>cache := filter (\<lambda>q. fst q \<noteq> k) (cache s),
                                      eviction_count := eviction_count s + 1\<rparr>)
             \<and> od_contains k (cache s)"
proof -
  from evict_pick_total [OF assms, of "strategy s"] obtain k where
    "evict_pick (strategy s) (cache s) = Inr (k, filter (\<lambda>q. fst q \<noteq> k) (cache s))"
    and "od_contains k (cache s)" by blast
  then show ?thesis using assms(1) by (auto simp: evict_def)
qed

lemma od_getitem_contains:
  "od_contains k d \<Longrightarrow> \<exists>e. od_getitem d k = Inr e \<and> (k, e) \<in> set d"
  by (auto simp: od_contains_def od_keys_def od_getitem_def map_of_eq_None_iff
           split: option.splits dest: map_of_SomeD)

lemma set_op_unfold:
  assumes "distinct (od_keys (cache s))"
  shows "\<exists>s1. (if cache s \<noteq> [] \<and> max_size s \<le> int (length (cache s))
               then \<exists>k. od_contains k (cache s) \<and> evict s = Inr (Some k, s1)
                        \<and> s1 = s\<lparr>cache := filter (\<lambda>q. fst q \<noteq> k) (cache s),
                                  eviction_count := eviction_count s + 1\<rparr>
               else s1 = s)
            \<and> set_op rnd key v c now_e now_c s =
                Inr (True, s1\<lparr>cache := od_setitem key
                    \<lparr> val = v, expires = rnd (now_e + ttl_or c (ttl s)),
                      created = now_c, accessed = 0, last_access = None \<rparr> (cache s1)\<rparr>)"
proof (cases "max_size s \<le> int (length (cache s))")
  case False
  then show ?thesis by (simp add: set_op_def)
next
  case True
  show ?thesis
  proof (cases "cache s = []")
    case True
    with \<open>max_size s \<le> int (length (cache s))\<close> show ?thesis
      by (simp add: set_op_def evict_def)
  next
    case False
    from evict_nonempty [OF False assms] obtain k where
      e: "evict s = Inr (Some k, s\<lparr>cache := filter (\<lambda>q. fst q \<noteq> k) (cache s),
                                      eviction_count := eviction_count s + 1\<rparr>)"
      and k: "od_contains k (cache s)" by blast
    with False True show ?thesis by (auto simp: set_op_def)
  qed
qed

lemma get_op_unfold:
  "get_op key now_x now_a s =
     (case map_of (cache s) key of
        None \<Rightarrow> Inr (None, s\<lparr>miss_count := miss_count s + 1\<rparr>)
      | Some item \<Rightarrow>
          if expires item < now_x then
            Inr (None, s\<lparr>cache := filter (\<lambda>q. fst q \<noteq> key) (cache s),
                         miss_count := miss_count s + 1,
                         eviction_count := eviction_count s + 1\<rparr>)
          else
            Inr (Some (val item),
                 s\<lparr>cache :=
                     (let d1 = od_setitem key
                           (item\<lparr>accessed := accessed item + 1, last_access := Some now_a\<rparr>)
                           (cache s)
                      in if strategy s = ''lru''
                         then filter (\<lambda>p. fst p \<noteq> key) d1 @ filter (\<lambda>p. fst p = key) d1
                         else d1),
                   hit_count := hit_count s + 1,
                   access_count := (access_count s)(key := access_count s key + 1)\<rparr>))"
proof (cases "map_of (cache s) key")
  case None
  then have "\<not> od_contains key (cache s)"
    by (simp add: od_contains_def od_keys_def map_of_eq_None_iff)
  with None show ?thesis by (simp add: get_op_def)
next
  case (Some item)
  then have c: "od_contains key (cache s)"
    by (metis map_of_eq_None_iff od_contains_def od_keys_def option.distinct(1) set_map)
  then have c1: "od_contains key (od_setitem key e (cache s))" for e
    by (simp add: od_contains_def od_keys_setitem)
  from Some c c1 show ?thesis
    by (simp add: get_op_def od_getitem_def od_delitem_def od_move_to_end_def Let_def)
qed

lemma delete_op_unfold:
  "delete_op key s =
     Inr (if od_contains key (cache s) then s\<lparr>cache := filter (\<lambda>q. fst q \<noteq> key) (cache s)\<rparr> else s)"
  by (simp add: delete_op_def od_delitem_def)

lemma length_filter_contains:
  "od_contains k d \<Longrightarrow> length (filter (\<lambda>q. fst q \<noteq> k) d) < length d"
proof -
  assume "od_contains k d"
  then obtain p where "p \<in> set d" and "\<not> fst p \<noteq> k"
    by (auto simp: od_contains_def od_keys_def)
  then show ?thesis by (rule length_filter_less)
qed

lemma set_op_frame:
  assumes "distinct (od_keys (cache s))"
  shows "\<exists>s'. set_op rnd key v c now_e now_c s = Inr (True, s')
           \<and> distinct (od_keys (cache s'))
           \<and> max_size s' = max_size s \<and> ttl s' = ttl s \<and> strategy s' = strategy s
           \<and> hit_count s' = hit_count s \<and> miss_count s' = miss_count s
           \<and> (0 < max_size s \<longrightarrow> int (length (cache s)) \<le> max_size s
                 \<longrightarrow> int (length (cache s')) \<le> max_size s)"
proof -
  from set_op_unfold [OF assms, of rnd key v c now_e now_c] obtain s1 where
    a: "if cache s \<noteq> [] \<and> max_size s \<le> int (length (cache s))
        then \<exists>k. od_contains k (cache s) \<and> evict s = Inr (Some k, s1)
                 \<and> s1 = s\<lparr>cache := filter (\<lambda>q. fst q \<noteq> k) (cache s),
                           eviction_count := eviction_count s + 1\<rparr>
        else s1 = s"
    and b: "set_op rnd key v c now_e now_c s =
              Inr (True, s1\<lparr>cache := od_setitem key
                    \<lparr> val = v, expires = rnd (now_e + ttl_or c (ttl s)),
                      created = now_c, accessed = 0, last_access = None \<rparr> (cache s1)\<rparr>)"
    by blast
  have d1: "distinct (od_keys (cache s1))"
    using a assms by (auto simp: distinct_od_remove split: if_splits)
  have f1: "max_size s1 = max_size s \<and> ttl s1 = ttl s \<and> strategy s1 = strategy s
            \<and> hit_count s1 = hit_count s \<and> miss_count s1 = miss_count s"
    using a by (auto split: if_splits)
  have l1: "0 < max_size s \<longrightarrow> int (length (cache s)) \<le> max_size s
              \<longrightarrow> int (length (cache s1)) < max_size s"
  proof (cases "cache s \<noteq> [] \<and> max_size s \<le> int (length (cache s))")
    case True
    with a obtain k where "od_contains k (cache s)"
      and "cache s1 = filter (\<lambda>q. fst q \<noteq> k) (cache s)" by auto
    then have "length (cache s1) < length (cache s)"
      using length_filter_contains by metis
    then show ?thesis by linarith
  next
    case False
    with a have "s1 = s" by simp
    with False show ?thesis by auto
  qed
  define e where "e = \<lparr> val = v, expires = rnd (now_e + ttl_or c (ttl s)),
                      created = now_c, accessed = 0, last_access = None \<rparr>"
  have "length (od_setitem key e (cache s1)) \<le> Suc (length (cache s1))"
    by (simp add: length_od_setitem)
  then have l2: "int (length (od_setitem key e (cache s1))) \<le> int (length (cache s1)) + 1"
    by linarith
  have l3: "0 < max_size s \<longrightarrow> int (length (cache s)) \<le> max_size s
              \<longrightarrow> int (length (od_setitem key e (cache s1))) \<le> max_size s"
    using l1 l2 by linarith
  have d2: "distinct (od_keys (od_setitem key e (cache s1)))"
    using d1 by (rule distinct_od_setitem)
  show ?thesis
    using b d2 f1 l3 unfolding e_def by simp
qed

section \<open>What every operation keeps\<close>

lemma length_od_move:
  "length (filter (\<lambda>p. fst p \<noteq> k) d @ filter (\<lambda>p. fst p = k) d) = length d"
  using sum_length_filter_compl [of "\<lambda>p. fst p \<noteq> k" d] by simp

lemma map_of_contains: "map_of d k = Some e \<Longrightarrow> od_contains k d"
  by (metis map_of_eq_None_iff od_contains_def od_keys_def option.distinct(1) set_map)

lemma get_op_frame:
  assumes "distinct (od_keys (cache s))"
  shows "\<exists>r s'. get_op key now_x now_a s = Inr (r, s')
           \<and> distinct (od_keys (cache s'))
           \<and> max_size s' = max_size s \<and> ttl s' = ttl s \<and> strategy s' = strategy s
           \<and> ((hit_count s' = hit_count s + 1 \<and> miss_count s' = miss_count s)
                \<or> (hit_count s' = hit_count s \<and> miss_count s' = miss_count s + 1))
           \<and> length (cache s') \<le> length (cache s)"
proof (cases "map_of (cache s) key")
  case None
  then show ?thesis using assms by (simp add: get_op_unfold)
next
  case (Some item)
  show ?thesis
  proof (cases "expires item < now_x")
    case True
    with Some show ?thesis using assms
      by (simp add: get_op_unfold distinct_od_remove)
  next
    case False
    define d1 where "d1 = od_setitem key
        (item\<lparr>accessed := accessed item + 1, last_access := Some now_a\<rparr>) (cache s)"
    have c: "od_contains key (cache s)" using Some by (rule map_of_contains)
    have dd: "distinct (od_keys d1)" unfolding d1_def using assms by (rule distinct_od_setitem)
    have ll: "length d1 = length (cache s)" unfolding d1_def using c by (simp add: length_od_setitem)
    have dm: "distinct (od_keys (filter (\<lambda>p. fst p \<noteq> key) d1 @ filter (\<lambda>p. fst p = key) d1))"
      using dd by (rule od_move_keeps_distinct)
    have lm: "length (filter (\<lambda>p. fst p \<noteq> key) d1 @ filter (\<lambda>p. fst p = key) d1) = length (cache s)"
      using ll length_od_move [of key d1] by simp
    show ?thesis
      using Some False dd ll dm lm
      by (simp add: get_op_unfold d1_def [symmetric] Let_def del: length_append)
  qed
qed

lemma evict_frame:
  assumes "distinct (od_keys (cache s))"
  shows "\<exists>r s'. evict s = Inr (r, s')
           \<and> distinct (od_keys (cache s'))
           \<and> max_size s' = max_size s \<and> ttl s' = ttl s \<and> strategy s' = strategy s
           \<and> hit_count s' = hit_count s \<and> miss_count s' = miss_count s
           \<and> length (cache s') \<le> length (cache s)"
proof (cases "cache s = []")
  case True
  then show ?thesis using assms by (simp add: evict_def)
next
  case False
  from evict_nonempty [OF False assms] obtain k where
    "evict s = Inr (Some k, s\<lparr>cache := filter (\<lambda>q. fst q \<noteq> k) (cache s),
                               eviction_count := eviction_count s + 1\<rparr>)" by blast
  then show ?thesis using assms by (simp add: distinct_od_remove)
qed

lemma delete_op_frame:
  assumes "distinct (od_keys (cache s))"
  shows "\<exists>s'. delete_op key s = Inr s'
           \<and> distinct (od_keys (cache s'))
           \<and> max_size s' = max_size s \<and> ttl s' = ttl s \<and> strategy s' = strategy s
           \<and> hit_count s' = hit_count s \<and> miss_count s' = miss_count s
           \<and> length (cache s') \<le> length (cache s)"
  using assms by (simp add: delete_op_unfold distinct_od_remove)

lemma step_frame:
  assumes "distinct (od_keys (cache s))"
  shows "\<exists>s'. step rnd x s = Inr s'
           \<and> distinct (od_keys (cache s'))
           \<and> max_size s' = max_size s \<and> ttl s' = ttl s \<and> strategy s' = strategy s
           \<and> (if is_get x
                then (hit_count s' = hit_count s + 1 \<and> miss_count s' = miss_count s)
                       \<or> (hit_count s' = hit_count s \<and> miss_count s' = miss_count s + 1)
                else hit_count s' = hit_count s \<and> miss_count s' = miss_count s)
           \<and> (0 < max_size s \<longrightarrow> int (length (cache s)) \<le> max_size s
                 \<longrightarrow> int (length (cache s')) \<le> max_size s)"
proof (cases x)
  case (Set k v c now_e now_c)
  from set_op_frame [OF assms, of rnd k v c now_e now_c] obtain s' where
    "set_op rnd k v c now_e now_c s = Inr (True, s')"
    "distinct (od_keys (cache s'))" "max_size s' = max_size s" "ttl s' = ttl s"
    "strategy s' = strategy s" "hit_count s' = hit_count s" "miss_count s' = miss_count s"
    "0 < max_size s \<longrightarrow> int (length (cache s)) \<le> max_size s
       \<longrightarrow> int (length (cache s')) \<le> max_size s" by blast
  with Set show ?thesis by simp
next
  case (Get k now_x now_a)
  from get_op_frame [OF assms, of k now_x now_a] obtain r s' where
    "get_op k now_x now_a s = Inr (r, s')"
    "distinct (od_keys (cache s'))" "max_size s' = max_size s" "ttl s' = ttl s"
    "strategy s' = strategy s"
    "(hit_count s' = hit_count s + 1 \<and> miss_count s' = miss_count s)
       \<or> (hit_count s' = hit_count s \<and> miss_count s' = miss_count s + 1)"
    "length (cache s') \<le> length (cache s)" by blast
  with Get show ?thesis by simp
next
  case Evict
  from evict_frame [OF assms] obtain r s' where
    "evict s = Inr (r, s')"
    "distinct (od_keys (cache s'))" "max_size s' = max_size s" "ttl s' = ttl s"
    "strategy s' = strategy s" "hit_count s' = hit_count s" "miss_count s' = miss_count s"
    "length (cache s') \<le> length (cache s)" by blast
  with Evict show ?thesis by simp
next
  case (Delete k)
  from delete_op_frame [OF assms, of k] obtain s' where
    "delete_op k s = Inr s'"
    "distinct (od_keys (cache s'))" "max_size s' = max_size s" "ttl s' = ttl s"
    "strategy s' = strategy s" "hit_count s' = hit_count s" "miss_count s' = miss_count s"
    "length (cache s') \<le> length (cache s)" by blast
  with Delete show ?thesis by simp
qed

lemma run_frame:
  assumes "distinct (od_keys (cache s))"
  shows "\<exists>s'. run rnd s xs = Inr s'
           \<and> distinct (od_keys (cache s'))
           \<and> max_size s' = max_size s \<and> ttl s' = ttl s \<and> strategy s' = strategy s
           \<and> hit_count s' + miss_count s' = hit_count s + miss_count s + int (length (filter is_get xs))
           \<and> (0 < max_size s \<longrightarrow> int (length (cache s)) \<le> max_size s
                 \<longrightarrow> int (length (cache s')) \<le> max_size s)"
  using assms
proof (induction xs arbitrary: s)
  case Nil
  then show ?case by simp
next
  case (Cons x xs)
  from step_frame [OF Cons.prems, of rnd x] obtain s1 where
    a: "step rnd x s = Inr s1" "distinct (od_keys (cache s1))" "max_size s1 = max_size s"
       "ttl s1 = ttl s" "strategy s1 = strategy s"
       "if is_get x
        then (hit_count s1 = hit_count s + 1 \<and> miss_count s1 = miss_count s)
               \<or> (hit_count s1 = hit_count s \<and> miss_count s1 = miss_count s + 1)
        else hit_count s1 = hit_count s \<and> miss_count s1 = miss_count s"
       "0 < max_size s \<longrightarrow> int (length (cache s)) \<le> max_size s
          \<longrightarrow> int (length (cache s1)) \<le> max_size s" by blast
  from a(6) have c: "hit_count s1 + miss_count s1
      = hit_count s + miss_count s + (if is_get x then 1 else 0)"
    by (auto split: if_splits)
  from Cons.IH [OF a(2)] obtain s' where
    b: "run rnd s1 xs = Inr s'" "distinct (od_keys (cache s'))" "max_size s' = max_size s1"
       "ttl s' = ttl s1" "strategy s' = strategy s1"
       "hit_count s' + miss_count s' = hit_count s1 + miss_count s1 + int (length (filter is_get xs))"
       "0 < max_size s1 \<longrightarrow> int (length (cache s1)) \<le> max_size s1
          \<longrightarrow> int (length (cache s')) \<le> max_size s1" by blast
  from a(1-5,7) b c show ?case by auto
qed

lemma init_distinct: "distinct (od_keys (cache (init m t r)))"
  by (simp add: init_def od_keys_def)

lemma init_fields:
  "max_size (init m t r) = m" "ttl (init m t r) = t" "cache (init m t r) = []"
  "hit_count (init m t r) = 0" "miss_count (init m t r) = 0"
  "eviction_count (init m t r) = 0"
  by (simp_all add: init_def)

section \<open>The claims\<close>

text \<open>
  C1. A cache built with a positive capacity never holds more entries than its capacity:
  after any sequence of operations, and so after every call of any sequence of \<^verbatim>\<open>set\<close>
  calls with any keys, values, ttl arguments and clock readings, no call has raised, the
  keys of the dictionary are pairwise different and their number is at most \<open>max_size\<close>.
\<close>

theorem set_keeps_capacity_bound:
  assumes "0 < m"
  shows "case run rnd (init m t r) ops of
           Inl err \<Rightarrow> False
         | Inr s \<Rightarrow> distinct (od_keys (cache s)) \<and> int (length (cache s)) \<le> m"
proof -
  define s0 :: "('a, 'b) cache_simulator" where "s0 = init m t r"
  have d: "distinct (od_keys (cache s0))" unfolding s0_def by (rule init_distinct)
  have f: "max_size s0 = m" "cache s0 = []" unfolding s0_def by (rule init_fields)+
  from run_frame [OF d, of rnd ops] obtain s' where
    r: "run rnd s0 ops = Inr s'" and d': "distinct (od_keys (cache s'))"
    and l: "0 < max_size s0 \<longrightarrow> int (length (cache s0)) \<le> max_size s0
       \<longrightarrow> int (length (cache s')) \<le> max_size s0" by blast
  from l f assms have "int (length (cache s')) \<le> m" by simp
  with r d' show ?thesis unfolding s0_def by simp
qed

theorem set_keeps_capacity_bound_witness:
  "(0::int) < 2 \<and>
   (case run (\<lambda>x. x) (init 2 300 0)
           [Set ''a'' (1::int) None 10 10, Set ''b'' 2 (Some 5) 11 11,
            Set ''a'' 3 (Some 0) 12 12, Set ''c'' 4 (Some (- 7)) 13 14] of
      Inl err \<Rightarrow> False
    | Inr s \<Rightarrow> distinct (od_keys (cache s)) \<and> int (length (cache s)) \<le> 2)"
proof (rule conjI)
  show "(0::int) < 2" by simp
  then show "case run (\<lambda>x. x) (init 2 300 0)
           [Set ''a'' (1::int) None 10 10, Set ''b'' 2 (Some 5) 11 11,
            Set ''a'' 3 (Some 0) 12 12, Set ''c'' 4 (Some (- 7)) 13 14] of
      Inl err \<Rightarrow> False
    | Inr s \<Rightarrow> distinct (od_keys (cache s)) \<and> int (length (cache s)) \<le> 2"
    by (rule set_keeps_capacity_bound)
qed

text \<open>
  C2. From any cache object, after any sequence of \<^verbatim>\<open>set\<close>, \<^verbatim>\<open>get\<close>, \<^verbatim>\<open>evict\<close>
  and deletions, \<open>hit_count + miss_count\<close> has grown by the number of \<^verbatim>\<open>get\<close> calls
  of the sequence, so from a new object, whose counters are 0, it is that number. A
  single \<^verbatim>\<open>get\<close> adds one to exactly one of the two counters and every other
  operation leaves both as they were; no operation raises. The hypothesis says that the
  keys of the dictionary are pairwise different, as in every \<^verbatim>\<open>OrderedDict\<close>.
\<close>

theorem hit_plus_miss_counts_gets:
  assumes "distinct (od_keys (cache s))"
  shows "(case run rnd s ops of
            Inl err \<Rightarrow> False
          | Inr s' \<Rightarrow> hit_count s' + miss_count s'
                       = hit_count s + miss_count s + int (length (filter is_get ops)))
       \<and> (case step rnd x s of
            Inl err \<Rightarrow> False
          | Inr s' \<Rightarrow>
              if is_get x
              then (hit_count s' = hit_count s + 1 \<and> miss_count s' = miss_count s)
                     \<or> (hit_count s' = hit_count s \<and> miss_count s' = miss_count s + 1)
              else hit_count s' = hit_count s \<and> miss_count s' = miss_count s)"
proof (rule conjI)
  from run_frame [OF assms, of rnd ops] obtain s1 where
    "run rnd s ops = Inr s1"
    "hit_count s1 + miss_count s1
       = hit_count s + miss_count s + int (length (filter is_get ops))" by blast
  then show "case run rnd s ops of
            Inl err \<Rightarrow> False
          | Inr s' \<Rightarrow> hit_count s' + miss_count s'
                       = hit_count s + miss_count s + int (length (filter is_get ops))"
    by simp
next
  from step_frame [OF assms, of rnd x] obtain s3 where
    "step rnd x s = Inr s3"
    "if is_get x
     then (hit_count s3 = hit_count s + 1 \<and> miss_count s3 = miss_count s)
            \<or> (hit_count s3 = hit_count s \<and> miss_count s3 = miss_count s + 1)
     else hit_count s3 = hit_count s \<and> miss_count s3 = miss_count s" by blast
  then show "case step rnd x s of
            Inl err \<Rightarrow> False
          | Inr s' \<Rightarrow>
              if is_get x
              then (hit_count s' = hit_count s + 1 \<and> miss_count s' = miss_count s)
                     \<or> (hit_count s' = hit_count s \<and> miss_count s' = miss_count s + 1)
              else hit_count s' = hit_count s \<and> miss_count s' = miss_count s"
    by simp
qed

theorem hit_plus_miss_counts_gets_witness:
  "distinct (od_keys (cache (init 2 300 1 :: (string, int) cache_simulator)))
   \<and> (case run (\<lambda>x. x) (init 2 300 1 :: (string, int) cache_simulator)
             [Set ''a'' 1 None 10 10, Get ''a'' 20 20, Get ''b'' 21 21, Evict,
              Get ''a'' 22 22, Delete ''c''] of
         Inl err \<Rightarrow> False
       | Inr s' \<Rightarrow> hit_count s' + miss_count s' = 3)
   \<and> (case step (\<lambda>x. x) (Get ''a'' 5 5) (init 2 300 1 :: (string, int) cache_simulator) of
         Inl err \<Rightarrow> False
       | Inr s' \<Rightarrow> hit_count s' + miss_count s' = 1)"
proof -
  have d: "distinct (od_keys (cache (init 2 300 1 :: (string, int) cache_simulator)))"
    by (rule init_distinct)
  note t = hit_plus_miss_counts_gets [OF d, where rnd = "\<lambda>x. x" and ops =
             "[Set ''a'' 1 None 10 10, Get ''a'' 20 20, Get ''b'' 21 21, Evict,
              Get ''a'' 22 22, Delete ''c'']"
             and x = "Get ''a'' 5 5"]
  from t have a: "case run (\<lambda>x. x) (init 2 300 1 :: (string, int) cache_simulator)
             [Set ''a'' 1 None 10 10, Get ''a'' 20 20, Get ''b'' 21 21, Evict,
              Get ''a'' 22 22, Delete ''c''] of
         Inl err \<Rightarrow> False
       | Inr s' \<Rightarrow> hit_count s' + miss_count s' = 3"
    by (auto simp: init_fields split: sum.splits)
  from t have b: "case step (\<lambda>x. x) (Get ''a'' 5 5) (init 2 300 1 :: (string, int) cache_simulator) of
         Inl err \<Rightarrow> False
       | Inr s' \<Rightarrow> hit_count s' + miss_count s' = 1"
    by (auto simp: init_fields split: sum.splits)
  from d a b show ?thesis by blast
qed

lemma od_getitem_map_of: "od_getitem d k = Inr e \<longleftrightarrow> map_of d k = Some e"
  by (simp add: od_getitem_def split: option.splits)

lemma od_contains_remove: "\<not> od_contains k (filter (\<lambda>q. fst q \<noteq> k) d)"
  by (auto simp: od_contains_def od_keys_def)

text \<open>
  C3, as the specification states it, fails at the instant of expiry: a \<^verbatim>\<open>get\<close> whose
  clock reading equals \<open>expires\<close> (105 here) is a hit that returns the stored value and
  leaves the entry in the dictionary, since the test of the code is
  \<^verbatim>\<open>time.time() > item['expires']\<close>.
\<close>

theorem get_at_expiry_counterexample:
  "case get_op ''k'' 105 105 (example_object ''lru'' [(''k'', example_entry 7 0 105)]) of
     Inl err \<Rightarrow> False
   | Inr (r, s') \<Rightarrow> r = Some 7 \<and> od_contains ''k'' (cache s') \<and> hit_count s' = 1
                     \<and> miss_count s' = 0 \<and> eviction_count s' = 0"
  by (simp add: example_object_def example_entry_def get_op_unfold od_contains_def
        od_keys_def)

text \<open>
  C3, amended. For every key present in the store, a \<^verbatim>\<open>get\<close> whose clock reading is
  strictly later than the entry's \<open>expires\<close> returns absent, removes the entry from the
  store, and adds exactly one to \<open>miss_count\<close> and to \<open>eviction_count\<close> while
  \<open>hit_count\<close> stays; the stored value is never returned once the clock is past
  \<open>expires\<close>.
\<close>

theorem get_after_expiry_is_miss_and_eviction:
  assumes "od_getitem (cache s) key = Inr item" and "expires item < now_x"
  shows "\<exists>s'. get_op key now_x now_a s = Inr (None, s')
            \<and> cache s' = filter (\<lambda>q. fst q \<noteq> key) (cache s)
            \<and> \<not> od_contains key (cache s')
            \<and> miss_count s' = miss_count s + 1
            \<and> eviction_count s' = eviction_count s + 1
            \<and> hit_count s' = hit_count s"
proof -
  from assms(1) have "map_of (cache s) key = Some item" by (simp add: od_getitem_map_of)
  with assms(2) have "get_op key now_x now_a s =
      Inr (None, s\<lparr>cache := filter (\<lambda>q. fst q \<noteq> key) (cache s),
                   miss_count := miss_count s + 1,
                   eviction_count := eviction_count s + 1\<rparr>)"
    by (simp add: get_op_unfold)
  then show ?thesis by (simp add: od_contains_remove)
qed

theorem get_after_expiry_is_miss_and_eviction_witness:
  "od_getitem (cache (example_object ''lru'' [(''k'', example_entry 7 0 105)])) ''k''
     = Inr (example_entry 7 0 105)
   \<and> expires (example_entry 7 0 105) < 106
   \<and> (\<exists>s'. get_op ''k'' 106 106 (example_object ''lru'' [(''k'', example_entry 7 0 105)])
             = Inr (None, s')
          \<and> cache s' = [] \<and> miss_count s' = 1 \<and> eviction_count s' = 1
          \<and> hit_count s' = 0)"
proof -
  have h1: "od_getitem (cache (example_object ''lru'' [(''k'', example_entry 7 0 105)])) ''k''
     = Inr (example_entry 7 0 105)"
    by (simp add: example_object_def od_getitem_def)
  have h2: "expires (example_entry 7 0 105) < 106"
    by (simp add: example_entry_def)
  from get_after_expiry_is_miss_and_eviction [OF h1 h2, of 106]
  have "\<exists>s'. get_op ''k'' 106 106 (example_object ''lru'' [(''k'', example_entry 7 0 105)])
             = Inr (None, s')
          \<and> cache s' = [] \<and> miss_count s' = 1 \<and> eviction_count s' = 1
          \<and> hit_count s' = 0"
    by (simp add: example_object_def) blast
  with h1 h2 show ?thesis by (intro conjI)
qed

text \<open>
  C4. \<^verbatim>\<open>set\<close> computes its ttl as \<^verbatim>\<open>custom_ttl or self.ttl\<close>, and the number 0 is
  false in Python: a \<^verbatim>\<open>set\<close> with ttl 0 does exactly what a \<^verbatim>\<open>set\<close> without a ttl
  does and stores an entry that lives for the default ttl. In a new cache with the
  default ttl 300, \<^verbatim>\<open>set(k, 7, 0)\<close> at time 100 stores \<open>expires = 400\<close> and the \<^verbatim>\<open>get(k)\<close>
  right after it, at time 101, is a hit that returns 7 and counts neither a miss nor an
  eviction. (The sum 100 + 300 is a float, so nothing is rounded.)
\<close>

theorem set_ttl_zero_takes_default:
  "set_op rnd k v (Some 0) now_e now_c s = set_op rnd k v None now_e now_c s
   \<and> (case set_op (\<lambda>x. x) ''k'' (7::int) (Some 0) 100 100 (init 1000 300 0) of
         Inl err \<Rightarrow> False
       | Inr (b, s1) \<Rightarrow>
           (case od_getitem (cache s1) ''k'' of
              Inl err \<Rightarrow> False
            | Inr e \<Rightarrow> expires e = 400 \<and> created e = 100)
         \<and> (case get_op ''k'' 101 101 s1 of
              Inl err \<Rightarrow> False
            | Inr (r, s2) \<Rightarrow> r = Some 7 \<and> hit_count s2 = 1 \<and> miss_count s2 = 0
                              \<and> eviction_count s2 = 0))"
proof (rule conjI)
  have "ttl_or (Some 0) = ttl_or None" by (rule ext) (simp add: ttl_or_def)
  then show "set_op rnd k v (Some 0) now_e now_c s = set_op rnd k v None now_e now_c s"
    by (simp only: set_op_def)
next
  show "case set_op (\<lambda>x. x) ''k'' (7::int) (Some 0) 100 100 (init 1000 300 0) of
         Inl err \<Rightarrow> False
       | Inr (b, s1) \<Rightarrow>
           (case od_getitem (cache s1) ''k'' of
              Inl err \<Rightarrow> False
            | Inr e \<Rightarrow> expires e = 400 \<and> created e = 100)
         \<and> (case get_op ''k'' 101 101 s1 of
              Inl err \<Rightarrow> False
            | Inr (r, s2) \<Rightarrow> r = Some 7 \<and> hit_count s2 = 1 \<and> miss_count s2 = 0
                              \<and> eviction_count s2 = 0)"
    by (simp add: set_op_def init_def get_op_unfold ttl_or_def od_getitem_def)
qed

lemma random_choice_mem: "xs \<noteq> [] \<Longrightarrow> random_choice xs r \<in> set xs"
  by (simp add: random_choice_def)

lemma init_strategy: "strategy (init m t r) \<in> set [''lru'', ''lfu'', ''fifo'', ''ttl'']"
proof -
  have "random_choice [''lru'', ''lfu'', ''fifo'', ''ttl''] r
          \<in> set [''lru'', ''lfu'', ''fifo'', ''ttl'']"
    by (rule random_choice_mem) simp
  then show ?thesis by (simp add: init_def)
qed

text \<open>
  C5, as the specification states it, fails: the constructor checks nothing, so a
  capacity of 0 is accepted, and the strategy is not an argument but the element of
  \<^verbatim>\<open>self.strategies\<close> that \<^verbatim>\<open>random.choice\<close> draws (here the third one).
\<close>

theorem construct_capacity_zero_counterexample:
  "(0::int) \<le> 0 \<and>
   (case (CacheSimulator 0 300 2 :: py_error + (string, int) cache_simulator) of
      Inl err \<Rightarrow> False
    | Inr s \<Rightarrow> max_size s = 0 \<and> strategy s = ''fifo'')"
  by (simp add: CacheSimulator_def init_def random_choice_def)

text \<open>
  C5, amended. Construction takes the capacity and the default ttl as parameters and
  never fails, whatever their values; the strategy is not a parameter: it is one of
  \<open>lru\<close>, \<open>lfu\<close>, \<open>fifo\<close>, \<open>ttl\<close>, drawn at random by the constructor. Capacity, default
  ttl and strategy are then fixed: no sequence of \<^verbatim>\<open>set\<close>, \<^verbatim>\<open>get\<close>, \<^verbatim>\<open>evict\<close> and
  deletions changes them.
\<close>

theorem construct_never_fails_strategy_fixed:
  "\<exists>s0. CacheSimulator m t r = Inr s0
        \<and> max_size s0 = m \<and> ttl s0 = t \<and> cache s0 = []
        \<and> strategy s0 \<in> set [''lru'', ''lfu'', ''fifo'', ''ttl'']
        \<and> (case run rnd s0 ops of
              Inl err \<Rightarrow> False
            | Inr s \<Rightarrow> strategy s = strategy s0 \<and> max_size s = m \<and> ttl s = t)"
proof -
  define s0 :: "('a, 'b) cache_simulator" where "s0 = init m t r"
  have d: "distinct (od_keys (cache s0))" unfolding s0_def by (rule init_distinct)
  have f: "max_size s0 = m" "ttl s0 = t" "cache s0 = []"
    unfolding s0_def by (rule init_fields)+
  have st: "strategy s0 \<in> set [''lru'', ''lfu'', ''fifo'', ''ttl'']"
    unfolding s0_def by (rule init_strategy)
  from run_frame [OF d, of rnd ops] obtain s' where
    "run rnd s0 ops = Inr s'" "max_size s' = max_size s0" "ttl s' = ttl s0"
    "strategy s' = strategy s0" by blast
  with f have r: "case run rnd s0 ops of
              Inl err \<Rightarrow> False
            | Inr s \<Rightarrow> strategy s = strategy s0 \<and> max_size s = m \<and> ttl s = t"
    by simp
  have "CacheSimulator m t r = Inr s0" by (simp add: CacheSimulator_def s0_def)
  with f st r show ?thesis by blast
qed

text \<open>
  C6, as the specification states it, fails: \<^verbatim>\<open>set\<close> tests only
  \<^verbatim>\<open>len(self.cache) >= self.max_size\<close>. In a full cache of capacity 2 that holds \<open>a\<close>
  and \<open>b\<close>, a \<^verbatim>\<open>set\<close> that overwrites \<open>a\<close> evicts first (under \<open>lru\<close> the victim is
  \<open>a\<close> itself, which then comes back at the end) and counts an eviction.
\<close>

theorem set_overwrite_evicts_counterexample:
  "case run (\<lambda>x. x) (init 2 300 0) [Set ''a'' (1::int) None 10 10, Set ''b'' 2 None 11 11] of
     Inl err \<Rightarrow> False
   | Inr s \<Rightarrow>
       od_contains ''a'' (cache s) \<and> od_keys (cache s) = [''a'', ''b'']
       \<and> eviction_count s = 0
       \<and> (case set_op (\<lambda>x. x) ''a'' 9 None 12 12 s of
             Inl err \<Rightarrow> False
           | Inr (b, s') \<Rightarrow> eviction_count s' = 1 \<and> od_keys (cache s') = [''b'', ''a''])"
  by (simp add: init_def random_choice_def set_op_def evict_def evict_pick_def
        od_popitem_first_def od_contains_def od_keys_def ttl_or_def)

text \<open>
  C6, amended. A \<^verbatim>\<open>set(key, value)\<close> call evicts exactly one entry through the active
  policy and adds one to \<open>eviction_count\<close> when the store is not empty and holds at least
  \<open>max_size\<close> entries, whether the key is already present or not; otherwise it evicts
  nothing and leaves \<open>eviction_count\<close> as it was. In both cases it then stores the new
  entry under the key and returns \<open>True\<close>.
\<close>

theorem set_evicts_iff_full:
  assumes "distinct (od_keys (cache s))"
  shows "\<exists>s1 s'. set_op rnd key v c now_e now_c s = Inr (True, s')
           \<and> cache s' = od_setitem key
                    \<lparr> val = v, expires = rnd (now_e + ttl_or c (ttl s)),
                      created = now_c, accessed = 0, last_access = None \<rparr> (cache s1)
           \<and> (if cache s \<noteq> [] \<and> max_size s \<le> int (length (cache s))
               then (\<exists>k. evict s = Inr (Some k, s1) \<and> od_contains k (cache s)
                          \<and> cache s1 = filter (\<lambda>q. fst q \<noteq> k) (cache s))
                    \<and> eviction_count s' = eviction_count s + 1
               else s1 = s \<and> eviction_count s' = eviction_count s)"
proof -
  from set_op_unfold [OF assms, of rnd key v c now_e now_c] obtain s1 where
    a: "if cache s \<noteq> [] \<and> max_size s \<le> int (length (cache s))
        then \<exists>k. od_contains k (cache s) \<and> evict s = Inr (Some k, s1)
                 \<and> s1 = s\<lparr>cache := filter (\<lambda>q. fst q \<noteq> k) (cache s),
                           eviction_count := eviction_count s + 1\<rparr>
        else s1 = s"
    and b: "set_op rnd key v c now_e now_c s =
              Inr (True, s1\<lparr>cache := od_setitem key
                    \<lparr> val = v, expires = rnd (now_e + ttl_or c (ttl s)),
                      created = now_c, accessed = 0, last_access = None \<rparr> (cache s1)\<rparr>)"
    by blast
  define s' where "s' = s1\<lparr>cache := od_setitem key
                    \<lparr> val = v, expires = rnd (now_e + ttl_or c (ttl s)),
                      created = now_c, accessed = 0, last_access = None \<rparr> (cache s1)\<rparr>"
  have c: "cache s' = od_setitem key
                    \<lparr> val = v, expires = rnd (now_e + ttl_or c (ttl s)),
                      created = now_c, accessed = 0, last_access = None \<rparr> (cache s1)"
    and e: "eviction_count s' = eviction_count s1" by (simp_all add: s'_def)
  have "if cache s \<noteq> [] \<and> max_size s \<le> int (length (cache s))
               then (\<exists>k. evict s = Inr (Some k, s1) \<and> od_contains k (cache s)
                          \<and> cache s1 = filter (\<lambda>q. fst q \<noteq> k) (cache s))
                    \<and> eviction_count s' = eviction_count s + 1
               else s1 = s \<and> eviction_count s' = eviction_count s"
  proof (cases "cache s \<noteq> [] \<and> max_size s \<le> int (length (cache s))")
    case True
    with a obtain k where k: "od_contains k (cache s)" "evict s = Inr (Some k, s1)"
      "s1 = s\<lparr>cache := filter (\<lambda>q. fst q \<noteq> k) (cache s),
                           eviction_count := eviction_count s + 1\<rparr>" by auto
    from k(3) have "cache s1 = filter (\<lambda>q. fst q \<noteq> k) (cache s)"
      and "eviction_count s1 = eviction_count s + 1" by simp_all
    with k(1,2) e True show ?thesis by auto
  next
    case False
    with a have "s1 = s" by simp
    with e False show ?thesis by simp
  qed
  with b c show ?thesis unfolding s'_def by blast
qed

theorem set_evicts_iff_full_witness:
  "distinct (od_keys (cache 
      (example_object ''fifo''
        [(''a'', example_entry 1 0 310), (''b'', example_entry 2 0 311),
         (''c'', example_entry 3 0 312)])))
   \<and> (\<exists>s'. set_op (\<lambda>x. x) ''d'' 4 None 11 11 
      (example_object ''fifo''
        [(''a'', example_entry 1 0 310), (''b'', example_entry 2 0 311),
         (''c'', example_entry 3 0 312)]) = Inr (True, s')
          \<and> eviction_count s' = 1 \<and> od_keys (cache s') = [''b'', ''c'', ''d''])"
proof -
  have h: "distinct (od_keys (cache 
      (example_object ''fifo''
        [(''a'', example_entry 1 0 310), (''b'', example_entry 2 0 311),
         (''c'', example_entry 3 0 312)])))"
    by (simp add: example_object_def od_keys_def)
  have ev: "evict 
      (example_object ''fifo''
        [(''a'', example_entry 1 0 310), (''b'', example_entry 2 0 311),
         (''c'', example_entry 3 0 312)]) = Inr (Some ''a'', 
      (example_object ''fifo''
        [(''a'', example_entry 1 0 310), (''b'', example_entry 2 0 311),
         (''c'', example_entry 3 0 312)])\<lparr>cache := [(''b'', example_entry 2 0 311), (''c'', example_entry 3 0 312)],
          eviction_count := 1\<rparr>)"
    by (simp add: example_object_def evict_def evict_pick_def od_first_key_def od_delitem_def
          od_contains_def od_keys_def)
  from set_evicts_iff_full [OF h, where rnd = "\<lambda>x. x" and key = "''d''" and v = 4
      and c = None and now_e = 11 and now_c = 11] ev
  have "\<exists>s'. set_op (\<lambda>x. x) ''d'' 4 None 11 11 
      (example_object ''fifo''
        [(''a'', example_entry 1 0 310), (''b'', example_entry 2 0 311),
         (''c'', example_entry 3 0 312)]) = Inr (True, s')
          \<and> eviction_count s' = 1 \<and> od_keys (cache s') = [''b'', ''c'', ''d'']"
    by (auto simp: example_object_def od_keys_def)
  with h show ?thesis by (intro conjI)
qed

text \<open>
  C7. Under \<open>lru\<close> a \<^verbatim>\<open>get\<close> moves its key to the end of the dictionary and \<^verbatim>\<open>evict\<close>
  pops the first key, but a \<^verbatim>\<open>set\<close> on a key already present assigns in place and
  leaves the key where it was. In a cache of capacity 3, after \<^verbatim>\<open>set(a)\<close>, \<^verbatim>\<open>set(b)\<close>,
  \<^verbatim>\<open>set(a, v')\<close>, \<^verbatim>\<open>set(c)\<close> the order of the keys is \<open>a, b, c\<close> and the next eviction
  removes \<open>a\<close>, not \<open>b\<close>; with \<^verbatim>\<open>get(a)\<close> in the place of the overwriting \<^verbatim>\<open>set\<close> the
  order is \<open>b, a, c\<close> and \<open>b\<close> is removed.
\<close>

theorem lru_set_overwrite_not_refreshed:
  "(case run (\<lambda>x. x) (init 3 300 0)
           [Set ''a'' (1::int) None 10 10, Set ''b'' 2 None 11 11,
            Set ''a'' 9 None 12 12, Set ''c'' 3 None 13 13] of
      Inl err \<Rightarrow> False
    | Inr s \<Rightarrow>
        strategy s = ''lru'' \<and> od_keys (cache s) = [''a'', ''b'', ''c'']
        \<and> (case evict s of
              Inl err \<Rightarrow> False
            | Inr (r, s') \<Rightarrow> r = Some ''a'' \<and> od_keys (cache s') = [''b'', ''c'']))
   \<and> (case run (\<lambda>x. x) (init 3 300 0)
           [Set ''a'' (1::int) None 10 10, Set ''b'' 2 None 11 11,
            Get ''a'' 12 12, Set ''c'' 3 None 13 13] of
      Inl err \<Rightarrow> False
    | Inr s \<Rightarrow>
        strategy s = ''lru'' \<and> od_keys (cache s) = [''b'', ''a'', ''c'']
        \<and> (case evict s of
              Inl err \<Rightarrow> False
            | Inr (r, s') \<Rightarrow> r = Some ''b'' \<and> od_keys (cache s') = [''a'', ''c'']))"
  by (simp add: init_def random_choice_def set_op_def get_op_unfold evict_def evict_pick_def
        od_popitem_first_def od_keys_def ttl_or_def)

lemma evict_pick_min_split:
  assumes "st \<noteq> ''lru''" and "st \<noteq> ''fifo''" and "d \<noteq> []" and "distinct (od_keys d)"
  shows "\<exists>m pre post. d = pre @ m # post
           \<and> evict_pick st d = Inr (fst m, pre @ post)
           \<and> m = min_from (if st = ''lfu'' then (\<lambda>p. accessed (snd p))
                            else (\<lambda>p. expires (snd p))) (hd d) (tl d)"
proof -
  define f where "f = (if st = ''lfu'' then (\<lambda>p::'a \<times> 'b entry. accessed (snd p))
                       else (\<lambda>p. expires (snd p)))"
  define m where "m = min_from f (hd d) (tl d)"
  from min_from_split [of "hd d" "tl d" f] obtain pre post where
    s: "hd d # tl d = pre @ m # post" unfolding m_def by blast
  with assms(3) have d: "d = pre @ m # post" by simp
  have "evict_pick st d = Inr (fst m, filter (\<lambda>q. fst q \<noteq> fst m) d)"
    using evict_pick_min [OF assms(1-3)] by (simp add: f_def m_def Let_def)
  moreover have "filter (\<lambda>q. fst q \<noteq> fst m) d = pre @ post"
    using od_remove_mid [of pre m post] assms(4) d by simp
  ultimately have "evict_pick st d = Inr (fst m, pre @ post)" by simp
  with d show ?thesis unfolding m_def f_def by blast
qed

text \<open>
  C8. Under \<open>lfu\<close>, \<^verbatim>\<open>evict\<close> on a store that is not empty removes one key whose
  \<open>accessed\<close> count is minimal among the stored keys, and of several such keys the first
  in the iteration order of the dictionary: every key before the victim has a strictly
  greater count, every key after it a count at least as great. The iteration order is
  the order of insertion (a new key goes to the end, \<open>od_keys_setitem\<close>, and under \<open>lfu\<close>
  nothing is moved), so the victim is the earliest inserted key still present among those
  of minimal count. The keys of the dictionary are pairwise different.
\<close>

theorem lfu_evicts_first_minimal:
  assumes "strategy s = ''lfu''" and "cache s \<noteq> []" and "distinct (od_keys (cache s))"
  shows "\<exists>k e pre post.
           cache s = pre @ (k, e) # post
         \<and> evict s = Inr (Some k, s\<lparr>cache := pre @ post,
                                     eviction_count := eviction_count s + 1\<rparr>)
         \<and> (\<forall>p \<in> set pre. accessed e < accessed (snd p))
         \<and> (\<forall>p \<in> set post. accessed e \<le> accessed (snd p))"
proof -
  define f where "f = (\<lambda>p::'a \<times> 'b entry. accessed (snd p))"
  define m where "m = min_from f (hd (cache s)) (tl (cache s))"
  from min_from_split [of "hd (cache s)" "tl (cache s)" f] obtain pre post where
    sp: "hd (cache s) # tl (cache s) = pre @ m # post"
    and lo: "\<forall>y \<in> set pre. f m < f y"
    and hi: "\<forall>y \<in> set post. f m \<le> f y" unfolding m_def by blast
  from sp assms(2) have d: "cache s = pre @ (fst m, snd m) # post" by simp
  have ne: "strategy s \<noteq> ''lru''" "strategy s \<noteq> ''fifo''" using assms(1) by simp_all
  have "evict_pick (strategy s) (cache s)
          = Inr (fst m, filter (\<lambda>q. fst q \<noteq> fst m) (cache s))"
    using evict_pick_min [OF ne assms(2)] assms(1) by (simp add: f_def m_def Let_def)
  moreover have "filter (\<lambda>q. fst q \<noteq> fst m) (cache s) = pre @ post"
    using od_remove_mid [of pre m post] assms(3) d by simp
  ultimately have "evict s = Inr (Some (fst m), s\<lparr>cache := pre @ post,
                                     eviction_count := eviction_count s + 1\<rparr>)"
    using assms(2) by (simp add: evict_def)
  moreover have "\<forall>p \<in> set pre. accessed (snd m) < accessed (snd p)"
    using lo by (simp add: f_def)
  moreover have "\<forall>p \<in> set post. accessed (snd m) \<le> accessed (snd p)"
    using hi by (simp add: f_def)
  ultimately show ?thesis using d by blast
qed

theorem lfu_evicts_first_minimal_witness:
  "strategy 
      (example_object ''lfu''
        [(''a'', example_entry 1 2 310), (''b'', example_entry 2 1 311),
         (''c'', example_entry 3 1 312)]) = ''lfu''
   \<and> cache 
      (example_object ''lfu''
        [(''a'', example_entry 1 2 310), (''b'', example_entry 2 1 311),
         (''c'', example_entry 3 1 312)]) \<noteq> []
   \<and> distinct (od_keys (cache 
      (example_object ''lfu''
        [(''a'', example_entry 1 2 310), (''b'', example_entry 2 1 311),
         (''c'', example_entry 3 1 312)])))
   \<and> (\<exists>k e pre post.
         cache 
      (example_object ''lfu''
        [(''a'', example_entry 1 2 310), (''b'', example_entry 2 1 311),
         (''c'', example_entry 3 1 312)]) = pre @ (k, e) # post
       \<and> evict 
      (example_object ''lfu''
        [(''a'', example_entry 1 2 310), (''b'', example_entry 2 1 311),
         (''c'', example_entry 3 1 312)]) = Inr (Some k, 
      (example_object ''lfu''
        [(''a'', example_entry 1 2 310), (''b'', example_entry 2 1 311),
         (''c'', example_entry 3 1 312)])\<lparr>cache := pre @ post,
             eviction_count := eviction_count 
      (example_object ''lfu''
        [(''a'', example_entry 1 2 310), (''b'', example_entry 2 1 311),
         (''c'', example_entry 3 1 312)]) + 1\<rparr>)
       \<and> (\<forall>p \<in> set pre. accessed e < accessed (snd p))
       \<and> (\<forall>p \<in> set post. accessed e \<le> accessed (snd p)))
   \<and> (case evict 
      (example_object ''lfu''
        [(''a'', example_entry 1 2 310), (''b'', example_entry 2 1 311),
         (''c'', example_entry 3 1 312)]) of
         Inl err \<Rightarrow> False
       | Inr (r, s') \<Rightarrow> r = Some ''b'' \<and> od_keys (cache s') = [''a'', ''c''])"
proof -
  have h1: "strategy 
      (example_object ''lfu''
        [(''a'', example_entry 1 2 310), (''b'', example_entry 2 1 311),
         (''c'', example_entry 3 1 312)]) = ''lfu''"
    by (simp add: example_object_def)
  have h2: "cache 
      (example_object ''lfu''
        [(''a'', example_entry 1 2 310), (''b'', example_entry 2 1 311),
         (''c'', example_entry 3 1 312)]) \<noteq> []"
    by (simp add: example_object_def)
  have h3: "distinct (od_keys (cache 
      (example_object ''lfu''
        [(''a'', example_entry 1 2 310), (''b'', example_entry 2 1 311),
         (''c'', example_entry 3 1 312)])))"
    by (simp add: example_object_def od_keys_def)
  note t = lfu_evicts_first_minimal [OF h1 h2 h3]
  have ev: "case evict 
      (example_object ''lfu''
        [(''a'', example_entry 1 2 310), (''b'', example_entry 2 1 311),
         (''c'', example_entry 3 1 312)]) of
         Inl err \<Rightarrow> False
       | Inr (r, s') \<Rightarrow> r = Some ''b'' \<and> od_keys (cache s') = [''a'', ''c'']"
    by (simp add: example_object_def example_entry_def evict_def evict_pick_def py_min_def
          od_delitem_def od_contains_def od_keys_def)
  from h1 h2 h3 t ev show ?thesis by (intro conjI)
qed

lemma od_mid_not_contained:
  assumes "distinct (od_keys (pre @ (k, e) # post))"
  shows "\<not> od_contains k (pre @ post)"
  using assms by (auto simp: od_contains_def od_keys_def)

text \<open>
  C9. \<^verbatim>\<open>evict\<close> never raises. On an empty store it returns \<open>None\<close> and leaves the whole
  object, \<open>eviction_count\<close> included, as it was. On a store that is not empty it returns
  the key picked by the active strategy (the first key under \<open>lru\<close> and \<open>fifo\<close>, the
  first key of minimal \<open>accessed\<close> under \<open>lfu\<close>, the first key of minimal \<open>expires\<close>
  otherwise), removes the one entry of that key and nothing else, and adds exactly one to
  \<open>eviction_count\<close>. The keys of the dictionary are pairwise different.
\<close>

theorem evict_empty_and_nonempty:
  assumes "distinct (od_keys (cache s))"
  shows "(cache s = [] \<longrightarrow> evict s = Inr (None, s))
       \<and> (cache s \<noteq> [] \<longrightarrow>
            (\<exists>k e pre post.
                cache s = pre @ (k, e) # post
              \<and> evict s = Inr (Some k, s\<lparr>cache := pre @ post,
                                          eviction_count := eviction_count s + 1\<rparr>)
              \<and> \<not> od_contains k (pre @ post)
              \<and> (k, e) =
                  (if strategy s = ''lru'' \<or> strategy s = ''fifo'' then hd (cache s)
                   else if strategy s = ''lfu''
                   then min_from (\<lambda>p. accessed (snd p)) (hd (cache s)) (tl (cache s))
                   else min_from (\<lambda>p. expires (snd p)) (hd (cache s)) (tl (cache s)))))"
proof (intro conjI impI)
  assume "cache s = []"
  then show "evict s = Inr (None, s)" by (simp add: evict_def)
next
  assume ne: "cache s \<noteq> []"
  define v where "v =
                  (if strategy s = ''lru'' \<or> strategy s = ''fifo'' then hd (cache s)
                   else if strategy s = ''lfu''
                   then min_from (\<lambda>p. accessed (snd p)) (hd (cache s)) (tl (cache s))
                   else min_from (\<lambda>p. expires (snd p)) (hd (cache s)) (tl (cache s)))"
  have "\<exists>pre post. cache s = pre @ v # post
          \<and> evict_pick (strategy s) (cache s) = Inr (fst v, pre @ post)"
  proof (cases "strategy s = ''lru'' \<or> strategy s = ''fifo''")
    case True
    from ne obtain p r where d: "cache s = p # r" by (cases "cache s") auto
    have "evict_pick (strategy s) (p # r) = Inr (fst p, r)"
      using evict_pick_head [OF True] assms d by simp
    moreover have "v = p" using True d by (simp add: v_def)
    ultimately have "cache s = [] @ v # r
          \<and> evict_pick (strategy s) (cache s) = Inr (fst v, [] @ r)"
      using d by simp
    then show ?thesis by blast
  next
    case False
    then have n: "strategy s \<noteq> ''lru''" "strategy s \<noteq> ''fifo''" by simp_all
    from evict_pick_min_split [OF n ne assms] obtain m pre post where
      a: "cache s = pre @ m # post"
         "evict_pick (strategy s) (cache s) = Inr (fst m, pre @ post)"
         "m = min_from (if strategy s = ''lfu'' then (\<lambda>p. accessed (snd p))
                            else (\<lambda>p. expires (snd p))) (hd (cache s)) (tl (cache s))"
      by blast
    from a(3) False have "m = v" by (simp add: v_def)
    with a(1,2) show ?thesis by blast
  qed
  then obtain pre post where
    d: "cache s = pre @ (fst v, snd v) # post"
    and e: "evict_pick (strategy s) (cache s) = Inr (fst v, pre @ post)" by auto
  have "evict s = Inr (Some (fst v), s\<lparr>cache := pre @ post,
                                          eviction_count := eviction_count s + 1\<rparr>)"
    using ne e by (simp add: evict_def)
  moreover have "\<not> od_contains (fst v) (pre @ post)"
    using od_mid_not_contained [of pre "fst v" "snd v" post] assms d by simp
  moreover have "(fst v, snd v) = v" by simp
  ultimately have "cache s = pre @ (fst v, snd v) # post
              \<and> evict s = Inr (Some (fst v), s\<lparr>cache := pre @ post,
                                          eviction_count := eviction_count s + 1\<rparr>)
              \<and> \<not> od_contains (fst v) (pre @ post)
              \<and> (fst v, snd v) = v"
    using d by blast
  then show "\<exists>k e pre post.
                cache s = pre @ (k, e) # post
              \<and> evict s = Inr (Some k, s\<lparr>cache := pre @ post,
                                          eviction_count := eviction_count s + 1\<rparr>)
              \<and> \<not> od_contains k (pre @ post)
              \<and> (k, e) =
                  (if strategy s = ''lru'' \<or> strategy s = ''fifo'' then hd (cache s)
                   else if strategy s = ''lfu''
                   then min_from (\<lambda>p. accessed (snd p)) (hd (cache s)) (tl (cache s))
                   else min_from (\<lambda>p. expires (snd p)) (hd (cache s)) (tl (cache s)))"
    unfolding v_def [symmetric] by blast
qed

theorem evict_empty_and_nonempty_witness:
  "distinct (od_keys (cache 
      (example_object ''ttl''
        [(''a'', example_entry 1 0 310), (''b'', example_entry 2 5 305),
         (''c'', example_entry 3 0 400)])))
   \<and> cache 
      (example_object ''ttl''
        [(''a'', example_entry 1 0 310), (''b'', example_entry 2 5 305),
         (''c'', example_entry 3 0 400)]) \<noteq> []
   \<and> (\<exists>k e pre post.
         cache 
      (example_object ''ttl''
        [(''a'', example_entry 1 0 310), (''b'', example_entry 2 5 305),
         (''c'', example_entry 3 0 400)]) = pre @ (k, e) # post
       \<and> evict 
      (example_object ''ttl''
        [(''a'', example_entry 1 0 310), (''b'', example_entry 2 5 305),
         (''c'', example_entry 3 0 400)]) = Inr (Some k, 
      (example_object ''ttl''
        [(''a'', example_entry 1 0 310), (''b'', example_entry 2 5 305),
         (''c'', example_entry 3 0 400)])\<lparr>cache := pre @ post,
             eviction_count := eviction_count 
      (example_object ''ttl''
        [(''a'', example_entry 1 0 310), (''b'', example_entry 2 5 305),
         (''c'', example_entry 3 0 400)]) + 1\<rparr>)
       \<and> \<not> od_contains k (pre @ post)
       \<and> (k, e) = min_from (\<lambda>p. expires (snd p)) (hd (cache 
      (example_object ''ttl''
        [(''a'', example_entry 1 0 310), (''b'', example_entry 2 5 305),
         (''c'', example_entry 3 0 400)]))) (tl (cache 
      (example_object ''ttl''
        [(''a'', example_entry 1 0 310), (''b'', example_entry 2 5 305),
         (''c'', example_entry 3 0 400)]))))
   \<and> (case evict 
      (example_object ''ttl''
        [(''a'', example_entry 1 0 310), (''b'', example_entry 2 5 305),
         (''c'', example_entry 3 0 400)]) of
         Inl err \<Rightarrow> False
       | Inr (r, s') \<Rightarrow> r = Some ''b'' \<and> od_keys (cache s') = [''a'', ''c'']
                         \<and> eviction_count s' = 1)"
proof -
  have h1: "distinct (od_keys (cache 
      (example_object ''ttl''
        [(''a'', example_entry 1 0 310), (''b'', example_entry 2 5 305),
         (''c'', example_entry 3 0 400)])))"
    by (simp add: example_object_def od_keys_def)
  have h2: "cache 
      (example_object ''ttl''
        [(''a'', example_entry 1 0 310), (''b'', example_entry 2 5 305),
         (''c'', example_entry 3 0 400)]) \<noteq> []"
    by (simp add: example_object_def)
  have h3: "strategy 
      (example_object ''ttl''
        [(''a'', example_entry 1 0 310), (''b'', example_entry 2 5 305),
         (''c'', example_entry 3 0 400)]) = ''ttl''"
    by (simp add: example_object_def)
  from evict_empty_and_nonempty [OF h1] h2 h3
  have t: "\<exists>k e pre post.
         cache 
      (example_object ''ttl''
        [(''a'', example_entry 1 0 310), (''b'', example_entry 2 5 305),
         (''c'', example_entry 3 0 400)]) = pre @ (k, e) # post
       \<and> evict 
      (example_object ''ttl''
        [(''a'', example_entry 1 0 310), (''b'', example_entry 2 5 305),
         (''c'', example_entry 3 0 400)]) = Inr (Some k, 
      (example_object ''ttl''
        [(''a'', example_entry 1 0 310), (''b'', example_entry 2 5 305),
         (''c'', example_entry 3 0 400)])\<lparr>cache := pre @ post,
             eviction_count := eviction_count 
      (example_object ''ttl''
        [(''a'', example_entry 1 0 310), (''b'', example_entry 2 5 305),
         (''c'', example_entry 3 0 400)]) + 1\<rparr>)
       \<and> \<not> od_contains k (pre @ post)
       \<and> (k, e) = min_from (\<lambda>p. expires (snd p)) (hd (cache 
      (example_object ''ttl''
        [(''a'', example_entry 1 0 310), (''b'', example_entry 2 5 305),
         (''c'', example_entry 3 0 400)]))) (tl (cache 
      (example_object ''ttl''
        [(''a'', example_entry 1 0 310), (''b'', example_entry 2 5 305),
         (''c'', example_entry 3 0 400)])))"
    by simp
  have ev: "case evict 
      (example_object ''ttl''
        [(''a'', example_entry 1 0 310), (''b'', example_entry 2 5 305),
         (''c'', example_entry 3 0 400)]) of
         Inl err \<Rightarrow> False
       | Inr (r, s') \<Rightarrow> r = Some ''b'' \<and> od_keys (cache s') = [''a'', ''c'']
                         \<and> eviction_count s' = 1"
    by (simp add: example_object_def example_entry_def evict_def evict_pick_def py_min_def
          od_delitem_def od_contains_def od_keys_def)
  from h1 h2 t ev show ?thesis by (intro conjI)
qed

lemma round_to_ulp_fix: "0 < u \<Longrightarrow> u dvd x \<Longrightarrow> round_to_ulp u x = x"
  by (auto simp: round_to_ulp_def Let_def)

lemma round_to_ulp_bounds:
  assumes "0 < u"
  shows "(x div u) * u \<le> round_to_ulp u x" and "round_to_ulp u x \<le> (x div u + 1) * u"
proof -
  have "(x div u) * u \<le> (x div u + 1) * u" using assms by (simp add: distrib_right)
  then show "(x div u) * u \<le> round_to_ulp u x" and "round_to_ulp u x \<le> (x div u + 1) * u"
    by (simp_all add: round_to_ulp_def Let_def)
qed

lemma round_to_ulp_mono:
  assumes "0 < u" and "x \<le> y"
  shows "round_to_ulp u x \<le> round_to_ulp u y"
proof (cases "x div u < y div u")
  case True
  then have "x div u + 1 \<le> y div u" by simp
  then have "(x div u + 1) * u \<le> (y div u) * u"
    using assms(1) by (simp add: mult_right_mono)
  with round_to_ulp_bounds(2) [OF assms(1), of x] round_to_ulp_bounds(1) [OF assms(1), of y]
  show ?thesis by linarith
next
  case False
  moreover have "x div u \<le> y div u" using assms by (simp add: zdiv_mono1)
  ultimately have q: "x div u = y div u" by simp
  have "x = (x div u) * u + x mod u" and "y = (y div u) * u + y mod u" by simp_all
  with q assms(2) have r: "x mod u \<le> y mod u" by (metis add_le_cancel_left)
  have "(y div u) * u \<le> (y div u + 1) * u" using assms(1) by (simp add: distrib_right)
  with q r show ?thesis by (auto simp: round_to_ulp_def Let_def)
qed

lemma round_to_ulp_is_mono: "0 < u \<Longrightarrow> mono (round_to_ulp u)"
  by (rule monoI) (rule round_to_ulp_mono)

lemma set_od_setitem: "set (od_setitem k e d) \<subseteq> insert (k, e) (set d)"
  by (induction d) (auto split: if_splits)

lemma entries_od_setitem:
  assumes "\<forall>p \<in> set d. created (snd p) \<le> expires (snd p)" and "created e \<le> expires e"
  shows "\<forall>p \<in> set (od_setitem k e d). created (snd p) \<le> expires (snd p)"
proof
  fix p assume "p \<in> set (od_setitem k e d)"
  with set_od_setitem [of k e d] have "p = (k, e) \<or> p \<in> set d" by auto
  with assms show "created (snd p) \<le> expires (snd p)" by auto
qed

lemma set_op_entries:
  assumes "distinct (od_keys (cache s))"
    and "\<forall>p \<in> set (cache s). created (snd p) \<le> expires (snd p)"
    and "mono rnd" and "rnd now_c = now_c"
    and "now_c \<le> now_e + ttl_or c (ttl s)"
  shows "\<exists>s'. set_op rnd key v c now_e now_c s = Inr (True, s')
           \<and> (\<forall>p \<in> set (cache s'). created (snd p) \<le> expires (snd p))"
proof -
  from set_op_unfold [OF assms(1), of rnd key v c now_e now_c] obtain s1 where
    a: "if cache s \<noteq> [] \<and> max_size s \<le> int (length (cache s))
        then \<exists>k. od_contains k (cache s) \<and> evict s = Inr (Some k, s1)
                 \<and> s1 = s\<lparr>cache := filter (\<lambda>q. fst q \<noteq> k) (cache s),
                           eviction_count := eviction_count s + 1\<rparr>
        else s1 = s"
    and b: "set_op rnd key v c now_e now_c s =
              Inr (True, s1\<lparr>cache := od_setitem key
                    \<lparr> val = v, expires = rnd (now_e + ttl_or c (ttl s)),
                      created = now_c, accessed = 0, last_access = None \<rparr> (cache s1)\<rparr>)"
    by blast
  have "set (cache s1) \<subseteq> set (cache s)"
  proof (cases "cache s \<noteq> [] \<and> max_size s \<le> int (length (cache s))")
    case True
    with a obtain k where "s1 = s\<lparr>cache := filter (\<lambda>q. fst q \<noteq> k) (cache s),
                           eviction_count := eviction_count s + 1\<rparr>" by auto
    then show ?thesis by auto
  next
    case False
    with a show ?thesis by simp
  qed
  with assms(2) have i1: "\<forall>p \<in> set (cache s1). created (snd p) \<le> expires (snd p)" by blast
  define e where "e = \<lparr> val = v, expires = rnd (now_e + ttl_or c (ttl s)),
                      created = now_c, accessed = 0, last_access = None \<rparr>"
  from assms(3,5) have "rnd now_c \<le> rnd (now_e + ttl_or c (ttl s))" by (rule monoD)
  with assms(4) have "created e \<le> expires e" by (simp add: e_def)
  with i1 have "\<forall>p \<in> set (od_setitem key e (cache s1)). created (snd p) \<le> expires (snd p)"
    by (rule entries_od_setitem)
  with b show ?thesis unfolding e_def by simp
qed

lemma get_op_entries:
  assumes "\<forall>p \<in> set (cache s). created (snd p) \<le> expires (snd p)"
  shows "\<exists>r s'. get_op key now_x now_a s = Inr (r, s')
           \<and> (\<forall>p \<in> set (cache s'). created (snd p) \<le> expires (snd p))"
proof (cases "map_of (cache s) key")
  case None
  with assms show ?thesis by (simp add: get_op_unfold)
next
  case (Some item)
  show ?thesis
  proof (cases "expires item < now_x")
    case True
    with Some assms show ?thesis by (simp add: get_op_unfold)
  next
    case False
    define e where "e = item\<lparr>accessed := accessed item + 1, last_access := Some now_a\<rparr>"
    define d1 where "d1 = od_setitem key e (cache s)"
    from Some have "(key, item) \<in> set (cache s)" by (rule map_of_SomeD)
    with assms have "created item \<le> expires item" by auto
    then have "created e \<le> expires e" by (simp add: e_def)
    with assms have i: "\<forall>p \<in> set d1. created (snd p) \<le> expires (snd p)"
      unfolding d1_def by (rule entries_od_setitem)
    then have j: "\<forall>p \<in> set (filter (\<lambda>p. fst p \<noteq> key) d1 @ filter (\<lambda>p. fst p = key) d1).
                     created (snd p) \<le> expires (snd p)" by auto
    have "get_op key now_x now_a s =
            Inr (Some (val item),
                 s\<lparr>cache := (if strategy s = ''lru''
                              then filter (\<lambda>p. fst p \<noteq> key) d1 @ filter (\<lambda>p. fst p = key) d1
                              else d1),
                   hit_count := hit_count s + 1,
                   access_count := (access_count s)(key := access_count s key + 1)\<rparr>)"
      using Some False by (simp add: get_op_unfold d1_def e_def Let_def)
    with i j show ?thesis by simp
  qed
qed

lemma step_entries:
  assumes "distinct (od_keys (cache s))"
    and "\<forall>p \<in> set (cache s). created (snd p) \<le> expires (snd p)"
    and "mono rnd"
    and "case x of
           Set k v c now_e now_c \<Rightarrow> rnd now_c = now_c \<and> now_c \<le> now_e + ttl_or c (ttl s)
         | _ \<Rightarrow> True"
  shows "\<exists>s'. step rnd x s = Inr s'
           \<and> (\<forall>p \<in> set (cache s'). created (snd p) \<le> expires (snd p))"
proof (cases x)
  case (Set k v c now_e now_c)
  with assms(4) have f: "rnd now_c = now_c" and g: "now_c \<le> now_e + ttl_or c (ttl s)"
    by simp_all
  from set_op_entries [OF assms(1,2,3) f g, of k v] Set show ?thesis by auto
next
  case (Get k now_x now_a)
  from get_op_entries [OF assms(2), of k now_x now_a] Get show ?thesis by auto
next
  case Evict
  show ?thesis
  proof (cases "cache s = []")
    case True
    with Evict assms(2) show ?thesis by (simp add: evict_def)
  next
    case False
    from evict_nonempty [OF False assms(1)] obtain k where
      "evict s = Inr (Some k, s\<lparr>cache := filter (\<lambda>q. fst q \<noteq> k) (cache s),
                                 eviction_count := eviction_count s + 1\<rparr>)" by blast
    with Evict assms(2) show ?thesis by simp
  qed
next
  case (Delete k)
  with assms(2) show ?thesis by (simp add: delete_op_unfold)
qed

lemma run_entries:
  assumes "distinct (od_keys (cache s))"
    and "\<forall>p \<in> set (cache s). created (snd p) \<le> expires (snd p)"
    and "mono rnd"
    and "\<forall>x \<in> set ops. (case x of
            Set k v c now_e now_c \<Rightarrow> rnd now_c = now_c \<and> now_c \<le> now_e + ttl_or c (ttl s)
          | _ \<Rightarrow> True)"
  shows "\<exists>s'. run rnd s ops = Inr s'
           \<and> (\<forall>p \<in> set (cache s'). created (snd p) \<le> expires (snd p))"
  using assms
proof (induction ops arbitrary: s)
  case Nil
  then show ?case by simp
next
  case (Cons x xs)
  from Cons.prems(4) have
    ok: "case x of
           Set k v c now_e now_c \<Rightarrow> rnd now_c = now_c \<and> now_c \<le> now_e + ttl_or c (ttl s)
         | _ \<Rightarrow> True"
    by simp
  from step_entries [OF Cons.prems(1,2,3) ok] obtain s1 where
    a: "step rnd x s = Inr s1"
    and i: "\<forall>p \<in> set (cache s1). created (snd p) \<le> expires (snd p)" by blast
  from step_frame [OF Cons.prems(1), of rnd x] a have
    d: "distinct (od_keys (cache s1))" and t: "ttl s1 = ttl s" by auto
  from Cons.prems(4) t have
    r: "\<forall>x \<in> set xs. (case x of
            Set k v c now_e now_c \<Rightarrow> rnd now_c = now_c \<and> now_c \<le> now_e + ttl_or c (ttl s1)
          | _ \<Rightarrow> True)"
    unfolding t by simp
  from Cons.IH [OF d i Cons.prems(3) r] obtain s' where
    "run rnd s1 xs = Inr s'"
    "\<forall>p \<in> set (cache s'). created (snd p) \<le> expires (snd p)" by blast
  with a show ?case by simp
qed

text \<open>
  C10, as the specification states it, fails in two ways. \<^verbatim>\<open>set\<close> adds whatever ttl it
  is given, so the custom ttl \<open>-5\<close> at time 100 stores an entry that expires at 95,
  before it was created. And the sum is a float sum: with the time unit \<^verbatim>\<open>2**-30\<close> seconds
  the clock reading \<^verbatim>\<open>1700000000.0\<close> is the number 1825361100800000000, the floats around it are the
  multiples of 256 (their spacing is \<^verbatim>\<open>2**-22\<close> seconds), and the positive ttl 100
  (\<^verbatim>\<open>100 * 2**-30\<close> seconds) is rounded away: \<open>expires\<close> equals \<open>created\<close>.
\<close>

theorem set_expires_not_after_created_counterexample:
  "(case run (\<lambda>x. x) (init 10 300 0) [Set ''k'' (7::int) (Some (- 5)) 100 100] of
      Inl err \<Rightarrow> False
    | Inr s \<Rightarrow>
        (case od_getitem (cache s) ''k'' of
           Inl err \<Rightarrow> False
         | Inr e \<Rightarrow> expires e = 95 \<and> created e = 100 \<and> \<not> created e < expires e))
   \<and> (case run (round_to_ulp 256) (init 10 300 0)
              [Set ''k'' (7::int) (Some 100) 1825361100800000000 1825361100800000000] of
      Inl err \<Rightarrow> False
    | Inr s \<Rightarrow>
        (case od_getitem (cache s) ''k'' of
           Inl err \<Rightarrow> False
         | Inr e \<Rightarrow> expires e = 1825361100800000000 \<and> created e = 1825361100800000000
                    \<and> \<not> created e < expires e))"
  by (simp add: init_def set_op_def od_getitem_def ttl_or_def round_to_ulp_def)

text \<open>
  C10, amended. Every entry of the store satisfies \<open>created \<le> expires\<close> after every
  operation of a sequence of \<^verbatim>\<open>set\<close>, \<^verbatim>\<open>get\<close>, \<^verbatim>\<open>evict\<close> and deletions, provided that
  the ttl each \<^verbatim>\<open>set\<close> call of the sequence uses (\<^verbatim>\<open>custom_ttl or self.ttl\<close>) is at least
  the time that passes between its two clock readings, so a ttl that is not negative when
  the clock stands still during the call. The rounding of the float addition is monotone
  and the clock reading stored as \<open>created\<close> is a float; the store at the start has the
  property (the empty store of a new object has it) and its keys are pairwise different.
\<close>

theorem entries_not_expired_before_created:
  assumes "distinct (od_keys (cache s))"
    and "\<forall>p \<in> set (cache s). created (snd p) \<le> expires (snd p)"
    and "mono rnd"
    and "\<forall>x \<in> set ops. (case x of
            Set k v c now_e now_c \<Rightarrow> rnd now_c = now_c \<and> now_c \<le> now_e + ttl_or c (ttl s)
          | _ \<Rightarrow> True)"
  shows "case run rnd s ops of
           Inl err \<Rightarrow> False
         | Inr s' \<Rightarrow> \<forall>p \<in> set (cache s'). created (snd p) \<le> expires (snd p)"
proof -
  from run_entries [OF assms] obtain s' where
    "run rnd s ops = Inr s'"
    "\<forall>p \<in> set (cache s'). created (snd p) \<le> expires (snd p)" by blast
  then show ?thesis by simp
qed

theorem entries_not_expired_before_created_witness:
  "distinct (od_keys (cache (init 2 300 3 :: (string, int) cache_simulator)))
   \<and> list_all (\<lambda>p. created (snd p) \<le> expires (snd p))
         (cache (init 2 300 3 :: (string, int) cache_simulator))
   \<and> mono (round_to_ulp 256)
   \<and> list_all (\<lambda>x. case x of
             Set k v c now_e now_c \<Rightarrow>
               round_to_ulp 256 now_c = now_c
               \<and> now_c \<le> now_e + ttl_or c (ttl (init 2 300 3 :: (string, int) cache_simulator))
           | _ \<Rightarrow> True)
     [Set ''a'' (1::int) None 1825361100800000000 1825361100800000000, Set ''b'' 2 (Some 100) 1825361100800000000 1825361100800000000,
      Get ''a'' (1825361100800000000 + 256) (1825361100800000000 + 256),
      Set ''c'' 3 (Some 1024) (1825361100800000000 + 256) (1825361100800000000 + 512)]
   \<and> (case run (round_to_ulp 256) (init 2 300 3)
     [Set ''a'' (1::int) None 1825361100800000000 1825361100800000000, Set ''b'' 2 (Some 100) 1825361100800000000 1825361100800000000,
      Get ''a'' (1825361100800000000 + 256) (1825361100800000000 + 256),
      Set ''c'' 3 (Some 1024) (1825361100800000000 + 256) (1825361100800000000 + 512)] of
         Inl err \<Rightarrow> False
       | Inr s' \<Rightarrow> list_all (\<lambda>p. created (snd p) \<le> expires (snd p)) (cache s'))"
proof -
  have h1: "distinct (od_keys (cache (init 2 300 3 :: (string, int) cache_simulator)))"
    by (rule init_distinct)
  have h2: "\<forall>p \<in> set (cache (init 2 300 3 :: (string, int) cache_simulator)).
          created (snd p) \<le> expires (snd p)"
    by (simp add: init_fields)
  have h3: "mono (round_to_ulp 256)"
    by (rule round_to_ulp_is_mono) simp
  have h4: "\<forall>x \<in> set
     [Set ''a'' (1::int) None 1825361100800000000 1825361100800000000, Set ''b'' 2 (Some 100) 1825361100800000000 1825361100800000000,
      Get ''a'' (1825361100800000000 + 256) (1825361100800000000 + 256),
      Set ''c'' 3 (Some 1024) (1825361100800000000 + 256) (1825361100800000000 + 512)].
          (case x of
             Set k v c now_e now_c \<Rightarrow>
               round_to_ulp 256 now_c = now_c
               \<and> now_c \<le> now_e + ttl_or c (ttl (init 2 300 3 :: (string, int) cache_simulator))
           | _ \<Rightarrow> True)"
    by (simp add: init_fields ttl_or_def round_to_ulp_def)
  note t = entries_not_expired_before_created [OF h1 h2 h3 h4]
  from h1 h2 h3 h4 t show ?thesis unfolding list_all_iff by (intro conjI)
qed

end
